theory Spec2Isabelle
  imports Complex_Main "HOL-Library.Sublist"
begin

section \<open>The model pool (app/core/model_manager.py)\<close>

text \<open>
  A loaded model is an opaque handle; a resource set is the pair
  (detection model, recognition model) that \<^verbatim>\<open>ModelPool.__init__\<close> puts into
  its queue.  \<^verbatim>\<open>self._pool\<close> is a \<^verbatim>\<open>queue.Queue(maxsize=pool_size)\<close>: a FIFO
  list, oldest element first, whose \<^verbatim>\<open>put\<close> blocks while it holds
  \<^verbatim>\<open>pool_size\<close> elements.
\<close>

type_synonym model = nat
type_synonym rset = "model \<times> model"

datatype error = RuntimeError | AssertionError | ValueError

record 'r ModelPool =
  pool_size :: nat
  pool :: "'r list"

text \<open>
  \<^verbatim>\<open>ModelPool.__init__\<close>: the loop \<^verbatim>\<open>for i in range(pool_size)\<close> loads the
  detection model and then the recognition model of set \<open>i\<close>.  The outcome of the
  \<open>k\<close>-th call of \<^verbatim>\<open>create_degirum_model\<close> is \<open>load k\<close>; \<open>None\<close> is the
  RuntimeError it raises, which \<^verbatim>\<open>__init__\<close> re-raises.
\<close>

fun load_sets :: "(nat \<Rightarrow> model option) \<Rightarrow> nat \<Rightarrow> nat \<Rightarrow> error + rset list" where
  "load_sets load i 0 = Inr []"
| "load_sets load i (Suc k) =
     (case load (2 * i) of
        None \<Rightarrow> Inl RuntimeError
      | Some d \<Rightarrow>
          (case load (2 * i + 1) of
             None \<Rightarrow> Inl RuntimeError
           | Some r \<Rightarrow>
               (case load_sets load (Suc i) k of
                  Inl e \<Rightarrow> Inl e
                | Inr q \<Rightarrow> Inr ((d, r) # q))))"

definition ModelPool_init :: "(nat \<Rightarrow> model option) \<Rightarrow> nat \<Rightarrow> error + rset ModelPool" where
  "ModelPool_init load n =
     (case load_sets load 0 n of
        Inl e \<Rightarrow> Inl e
      | Inr q \<Rightarrow> Inr \<lparr>pool_size = n, pool = q\<rparr>)"

text \<open>
  \<^verbatim>\<open>acquire\<close>: \<^verbatim>\<open>self._pool.get(timeout=timeout)\<close>.  With an element in the
  queue the oldest one is returned; the \<^verbatim>\<open>queue.Empty\<close> of a wait that ran out
  is the result \<open>None\<close>.  (A caller that was served during its wait is the caller
  that takes its step after the release that served it.)
\<close>

definition acquire :: "'r ModelPool \<Rightarrow> 'r option \<times> 'r ModelPool" where
  "acquire p =
     (case pool p of
        [] \<Rightarrow> (None, p)
      | m # q \<Rightarrow> (Some m, p\<lparr>pool := q\<rparr>))"

text \<open>
  \<^verbatim>\<open>release\<close>: \<^verbatim>\<open>self._pool.put(models)\<close>, with no timeout.  On a full queue
  the call does not return: that is the result \<open>None\<close>.  A \<^verbatim>\<open>queue.Queue\<close> whose
  \<^verbatim>\<open>maxsize\<close> is 0 has no bound and is never full.
\<close>

definition release :: "'r \<Rightarrow> 'r ModelPool \<Rightarrow> 'r ModelPool option" where
  "release m p =
     (if pool_size p = 0 \<or> length (pool p) < pool_size p
      then Some (p\<lparr>pool := pool p @ [m]\<rparr>)
      else None)"

text \<open>
  Callers of the pool.  A history of calls is run from a pool and the list of the sets
  that are checked out (handed out by \<open>acquire\<close> and not yet given back); the list is
  bookkeeping of the callers, the pool itself keeps no such record.
\<close>

datatype 'r pool_call = Acquire | Release 'r

fun pool_step :: "'r pool_call \<Rightarrow> 'r ModelPool \<times> 'r list \<Rightarrow> ('r ModelPool \<times> 'r list) option" where
  "pool_step Acquire (p, out) =
     (case acquire p of
        (None, p') \<Rightarrow> Some (p', out)
      | (Some m, p') \<Rightarrow> Some (p', m # out))"
| "pool_step (Release m) (p, out) =
     (case release m p of
        None \<Rightarrow> None
      | Some p' \<Rightarrow> Some (p', remove1 m out))"

fun pool_run :: "'r pool_call list \<Rightarrow> 'r ModelPool \<times> 'r list \<Rightarrow> ('r ModelPool \<times> 'r list) option" where
  "pool_run [] s = Some s"
| "pool_run (c # cs) s =
     (case pool_step c s of
        None \<Rightarrow> None
      | Some s' \<Rightarrow> pool_run cs s')"

text \<open>Every release in the history gives back a set that is checked out at that moment.\<close>

fun releases_acquired :: "'r pool_call list \<Rightarrow> 'r ModelPool \<times> 'r list \<Rightarrow> bool" where
  "releases_acquired [] s = True"
| "releases_acquired (Acquire # cs) s =
     (case pool_step Acquire s of
        None \<Rightarrow> True
      | Some s' \<Rightarrow> releases_acquired cs s')"
| "releases_acquired (Release m # cs) (p, out) =
     (m \<in> set out \<and>
      (case pool_step (Release m) (p, out) of
         None \<Rightarrow> True
       | Some s' \<Rightarrow> releases_acquired cs s'))"

definition checked_out :: "'r ModelPool \<times> 'r list \<Rightarrow> nat" where
  "checked_out s = length (snd s)"

definition available :: "'r ModelPool \<times> 'r list \<Rightarrow> nat" where
  "available s = length (pool (fst s))"

definition capacity :: "'r ModelPool \<times> 'r list \<Rightarrow> nat" where
  "capacity s = pool_size (fst s)"

section \<open>Face alignment (app/core/image_utils.py)\<close>

text \<open>
  An image is its rows of pixels, a pixel its three channel values; \<open>np_size\<close>,
  numpy's \<^verbatim>\<open>.size\<close>, is the number of array elements.  Coordinates are real numbers:
  the rounding of numpy's float32 arithmetic is not part of the model.
\<close>

type_synonym pixel = "nat \<times> nat \<times> nat"
type_synonym image = "pixel list list"
type_synonym point = "real \<times> real"
type_synonym matrix = "real list list"

definition np_zeros_image :: "nat \<Rightarrow> image" where
  "np_zeros_image n = replicate n (replicate n (0, 0, 0))"

definition np_zeros_matrix :: matrix where
  "np_zeros_matrix = [[0, 0, 0], [0, 0, 0]]"

definition np_size :: "image \<Rightarrow> nat" where
  "np_size img = 3 * sum_list (map length img)"

definition has_shape :: "image \<Rightarrow> nat \<Rightarrow> bool" where
  "has_shape img n = (length img = n \<and> list_all (\<lambda>row. length row = n) img)"

text \<open>
  The two OpenCV calls of \<^verbatim>\<open>align_and_crop\<close> are parameters of the model.
  \<^item> \<open>estimateAffinePartial2D src dst\<close> is the pair \<^verbatim>\<open>(M, inliers)\<close>; \<open>inliers\<close> is
    \<open>None\<close> or the list of the 0/1 inlier flags.
  \<^item> \<^verbatim>\<open>cv2.warpAffine(img, M, (n, n), borderValue=0.0)\<close> with \<open>n > 0\<close> fills an
    \<open>n\<close> by \<open>n\<close> image whose pixel in column \<open>x\<close> of row \<open>y\<close> is the interpolated
    source pixel \<open>sample img M x y\<close>.  What it returns for a size that is not positive
    is \<open>warp_empty\<close>.
\<close>

record cv2 =
  estimateAffinePartial2D :: "point list \<Rightarrow> point list \<Rightarrow> matrix \<times> nat list option"
  sample :: "image \<Rightarrow> matrix \<Rightarrow> nat \<Rightarrow> nat \<Rightarrow> pixel"
  warp_empty :: "image \<Rightarrow> matrix \<Rightarrow> int \<Rightarrow> error + image"

definition warpAffine :: "cv2 \<Rightarrow> image \<Rightarrow> matrix \<Rightarrow> int \<Rightarrow> error + image" where
  "warpAffine cv img M n =
     (if 0 < n
      then Inr (map (\<lambda>y. map (\<lambda>x. sample cv img M x y) [0..<nat n]) [0..<nat n])
      else warp_empty cv img M n)"

definition arcface_ref_kps :: "point list" where
  "arcface_ref_kps =
     [(38.2946, 51.6963), (73.5318, 51.5014), (56.0252, 71.7366),
      (41.5493, 92.3655), (70.7299, 92.2041)]"

text \<open>The branch that chooses \<^verbatim>\<open>ratio\<close> and \<^verbatim>\<open>diff_x\<close> from \<^verbatim>\<open>image_size\<close>.\<close>

definition ratio_diff_x :: "int \<Rightarrow> real \<times> real" where
  "ratio_diff_x image_size =
     (if image_size mod 112 = 0
      then (real_of_int image_size / 112, 0)
      else (real_of_int image_size / 128, 8 * (real_of_int image_size / 128)))"

text \<open>\<^verbatim>\<open>dst = _arcface_ref_kps * ratio; dst[:, 0] += diff_x\<close>\<close>

definition dst_points :: "int \<Rightarrow> point list" where
  "dst_points image_size =
     (case ratio_diff_x image_size of
        (ratio, diff_x) \<Rightarrow> map (\<lambda>(x, y). (x * ratio + diff_x, y * ratio)) arcface_ref_kps)"

text \<open>\<^verbatim>\<open>inliers is None or not np.all(inliers)\<close>\<close>

definition degenerate :: "nat list option \<Rightarrow> bool" where
  "degenerate inliers =
     (case inliers of None \<Rightarrow> True | Some flags \<Rightarrow> \<not> list_all (\<lambda>b. b \<noteq> 0) flags)"

definition align_and_crop :: "cv2 \<Rightarrow> image \<Rightarrow> point list \<Rightarrow> int \<Rightarrow> error + image \<times> matrix" where
  "align_and_crop cv img lms image_size =
     (if length lms \<noteq> 5 then Inl AssertionError
      else if \<not> (image_size mod 112 = 0 \<or> image_size mod 128 = 0) then Inl AssertionError
      else
        (case estimateAffinePartial2D cv lms (dst_points image_size) of
           (M, inliers) \<Rightarrow>
             if degenerate inliers
             then (if image_size < 0 then Inl ValueError
                   else Inr (np_zeros_image (nat image_size), np_zeros_matrix))
             else
               (case warpAffine cv img M image_size of
                  Inl e \<Rightarrow> Inl e
                | Inr aligned_img \<Rightarrow> Inr (aligned_img, M))))"

section \<open>Detections and the alignment loop of the recognition stage\<close>

text \<open>
  A detection is the dictionary the detector returns for one face.  Its
  \<^verbatim>\<open>"landmarks"\<close> entry, when there is one, is a list of entries each holding a
  \<^verbatim>\<open>"landmark"\<close> point; \<open>face_landmarks\<close> is the comprehension
  \<^verbatim>\<open>[lm["landmark"] for lm in face_data.get("landmarks", [])]\<close>.
\<close>

record detection =
  landmarks :: "point list option"
  bbox :: "real list"
  score :: real

definition face_landmarks :: "detection \<Rightarrow> point list" where
  "face_landmarks face_data = (case landmarks face_data of None \<Rightarrow> [] | Some lms \<Rightarrow> lms)"

text \<open>
  The loop of \<^verbatim>\<open>_postprocessor_thread\<close> (lines 198 to 204) over the detections of
  one frame, with the aligner as a parameter.  An exception of the aligner leaves the
  loop at once.
\<close>

fun collect_aligned ::
  "(image \<Rightarrow> point list \<Rightarrow> error + image \<times> matrix) \<Rightarrow> image \<Rightarrow> detection list
     \<Rightarrow> error + image list \<times> detection list" where
  "collect_aligned align img [] = Inr ([], [])"
| "collect_aligned align img (face_data # rest) =
     (if length (face_landmarks face_data) = 5
      then
        (case align img (face_landmarks face_data) of
           Inl e \<Rightarrow> Inl e
         | Inr (aligned_face, M) \<Rightarrow>
             (case collect_aligned align img rest of
                Inl e \<Rightarrow> Inl e
              | Inr (aligned_faces, valid_faces_meta) \<Rightarrow>
                  if 0 < np_size aligned_face
                  then Inr (aligned_face # aligned_faces, face_data # valid_faces_meta)
                  else Inr (aligned_faces, valid_faces_meta)))
      else collect_aligned align img rest)"

section \<open>The stream pipeline (app/core/pipeline.py)\<close>

text \<open>
  A frame is the identity of one decoded image buffer; \<open>image_of\<close> gives its pixels.
  The calls into the detector, the recogniser with the face database, and the JPEG
  encoder are parameters of the model, collected in \<open>config\<close> with the two facts about
  the video source that the code asks for:
  \<^item> \<open>predict m frame\<close> is \<^verbatim>\<open>det_model.predict(frame).results\<close>, \<open>None\<close> when it raises;
  \<^item> \<open>recognise m faces metas\<close> is lines 207 to 216 (\<^verbatim>\<open>predict_batch\<close> and the
    database search), \<open>None\<close> when they raise;
  \<^item> \<open>encode frame results\<close> is \<^verbatim>\<open>_draw_results_on_frame\<close> and \<^verbatim>\<open>cv2.imencode\<close>,
    \<open>None\<close> when the flag is false or one of them raises;
  \<^item> \<open>source_opens\<close> is \<^verbatim>\<open>self.cap.isOpened()\<close> right after \<^verbatim>\<open>cv2.VideoCapture\<close>.
\<close>

type_synonym frame = nat
type_synonym jpeg = "nat list"
type_synonym recognition = "real list \<times> string \<times> real option"

record config =
  video_source :: string
  source_opens :: bool
  image_of :: "frame \<Rightarrow> image"
  predict :: "model \<Rightarrow> frame \<Rightarrow> detection list option"
  opencv :: cv2
  recognise :: "model \<Rightarrow> image list \<Rightarrow> detection list \<Rightarrow> recognition list option"
  encode :: "frame \<Rightarrow> recognition list \<Rightarrow> jpeg option"

text \<open>\<^verbatim>\<open>str.isdigit\<close> on ASCII text, and \<^verbatim>\<open>is_file = not self.video_source.isdigit()\<close>.\<close>

definition isdigit :: "string \<Rightarrow> bool" where
  "isdigit str = (str \<noteq> [] \<and> list_all (\<lambda>c. c \<in> set ''0123456789'') str)"

definition is_file :: "config \<Rightarrow> bool" where
  "is_file cfg = (\<not> isdigit (video_source cfg))"

subsection \<open>Bounded queues\<close>

text \<open>
  Every queue of the pipeline is a \<^verbatim>\<open>queue.Queue(maxsize=30)\<close>, oldest element first;
  the sentinel \<^verbatim>\<open>None\<close> of the code is the element \<open>None\<close>.
  \<open>put_nowait\<close> gives \<open>None\<close> for \<^verbatim>\<open>queue.Full\<close>; the blocking \<open>put\<close> gives \<open>None\<close>
  while the caller has to wait; \<open>get\<close> gives \<open>None\<close> for \<^verbatim>\<open>queue.Empty\<close>.
\<close>

definition maxsize :: nat where
  "maxsize = 30"

definition put_nowait :: "'a \<Rightarrow> 'a list \<Rightarrow> 'a list option" where
  "put_nowait x q = (if length q < maxsize then Some (q @ [x]) else None)"

definition put :: "'a \<Rightarrow> 'a list \<Rightarrow> 'a list option" where
  "put x q = (if length q < maxsize then Some (q @ [x]) else None)"

definition get :: "'a list \<Rightarrow> ('a \<times> 'a list) option" where
  "get q = (case q of [] \<Rightarrow> None | x # q' \<Rightarrow> Some (x, q'))"

subsection \<open>State of one session\<close>

text \<open>
  Each thread of a session is at a location of its code.  A location that holds a value
  is the thread holding that value in a local variable.
\<close>

datatype reader_loc = R_idle | R_loop | R_read | R_put frame | R_exit | R_done
datatype pre_loc = P_idle | P_loop | P_get | P_put "frame option" | P_done
datatype inf_loc =
  I_idle | I_loop | I_get | I_predict frame | I_put "(frame \<times> detection list) option" | I_done
datatype post_loc = O_idle | O_loop | O_get | O_process "frame \<times> detection list" | O_exit | O_done

datatype qname = PreQ | InfQ | PostQ
datatype stop_loc =
  S_check | S_set | S_join | S_cap | S_drain qname | S_models | S_release | S_clear

datatype driver_loc = D_acquire | D_open | D_start_threads | D_monitor | D_stop stop_loc | D_done
datatype manager_loc = M_idle | M_stop stop_loc | M_join | M_done
datatype feed_loc = F_loop | F_get | F_done

text \<open>
  What an observer of the session could write down: the frames the reader got from the
  source, the sentinels put into each queue, the frames whose JPEG went into the output
  queue, the JPEGs the feed yielded.  No step reads this list.
\<close>

datatype event =
  FrameRead frame | SentinelPut qname | SentinelOut | Published frame | Yielded jpeg

text \<open>
  The fields of \<^verbatim>\<open>FaceStreamPipeline\<close>, the shared pool, the source behind
  \<^verbatim>\<open>self.cap\<close> (the outcomes of the reads to come, \<open>None\<close> a read with \<^verbatim>\<open>ret\<close> false;
  after the last one every read fails), and the locations of the threads.
  The pool holds Python objects, so an element is a set or \<^verbatim>\<open>None\<close>.
  \<open>cap\<close> is \<open>None\<close> until the attribute is assigned, then \<open>Some (isOpened())\<close>.
\<close>

record sys =
  model_pool :: "rset option ModelPool"
  stop_event :: bool
  models :: "rset option"
  det_model :: "model option"
  rec_model :: "model option"
  cap :: "bool option"
  source :: "frame option list"
  preprocess_queue :: "frame option list"
  inference_queue :: "frame option list"
  postprocess_queue :: "(frame \<times> detection list) option list"
  output_queue :: "jpeg option list"
  reader_pc :: reader_loc
  preprocessor_pc :: pre_loc
  inference_pc :: inf_loc
  postprocessor_pc :: post_loc
  driver_pc :: driver_loc
  manager_pc :: manager_loc
  feed_pc :: feed_loc
  events :: "event list"

text \<open>
  A session whose driver thread was just started by \<^verbatim>\<open>start_stream\<close>: the state
  \<^verbatim>\<open>FaceStreamPipeline.__init__\<close> leaves, the driver at the first line of \<^verbatim>\<open>start\<close>.
\<close>

definition init_sys :: "rset option ModelPool \<Rightarrow> frame option list \<Rightarrow> sys" where
  "init_sys p src =
     \<lparr>model_pool = p, stop_event = False, models = None, det_model = None, rec_model = None,
      cap = None, source = src, preprocess_queue = [], inference_queue = [],
      postprocess_queue = [], output_queue = [], reader_pc = R_idle, preprocessor_pc = P_idle,
      inference_pc = I_idle, postprocessor_pc = O_idle, driver_pc = D_acquire,
      manager_pc = M_idle, feed_pc = F_loop, events = []\<rparr>"

subsection \<open>The four stage threads\<close>

text \<open>
  A step function gives the state after the next step of its thread, \<open>None\<close> when the
  thread cannot take a step now: it is not running, or it waits in a blocking \<open>put\<close>.
\<close>

definition cap_isOpened :: "sys \<Rightarrow> bool" where
  "cap_isOpened s = (cap s = Some True)"

text \<open>\<^verbatim>\<open>self.cap.read()\<close>: the next outcome of an opened source, a failed read otherwise.\<close>

definition cap_read :: "sys \<Rightarrow> frame option \<times> frame option list" where
  "cap_read s =
     (if cap_isOpened s
      then (case source s of [] \<Rightarrow> (None, []) | r # rs \<Rightarrow> (r, rs))
      else (None, source s))"

definition reader_thread :: "config \<Rightarrow> sys \<Rightarrow> sys option" where
  "reader_thread cfg s =
     (case reader_pc s of
        R_idle \<Rightarrow> None
      | R_loop \<Rightarrow>
          Some (if stop_event s then s\<lparr>reader_pc := R_exit\<rparr>
                else if \<not> cap_isOpened s then s\<lparr>reader_pc := R_exit\<rparr>
                else s\<lparr>reader_pc := R_read\<rparr>)
      | R_read \<Rightarrow>
          (case cap_read s of
             (Some frame, rest) \<Rightarrow>
               Some (s\<lparr>source := rest, reader_pc := R_put frame,
                       events := events s @ [FrameRead frame]\<rparr>)
           | (None, rest) \<Rightarrow>
               Some (s\<lparr>source := rest,
                       reader_pc := (if is_file cfg then R_exit else R_loop)\<rparr>))
      | R_put frame \<Rightarrow>
          (case put_nowait (Some frame) (preprocess_queue s) of
             Some q \<Rightarrow> Some (s\<lparr>preprocess_queue := q, reader_pc := R_loop\<rparr>)
           | None \<Rightarrow> Some (s\<lparr>reader_pc := R_loop\<rparr>))
      | R_exit \<Rightarrow>
          (case put None (preprocess_queue s) of
             Some q \<Rightarrow>
               Some (s\<lparr>preprocess_queue := q, reader_pc := R_done,
                       events := events s @ [SentinelPut PreQ]\<rparr>)
           | None \<Rightarrow> None)
      | R_done \<Rightarrow> None)"

definition preprocessor_thread :: "sys \<Rightarrow> sys option" where
  "preprocessor_thread s =
     (case preprocessor_pc s of
        P_idle \<Rightarrow> None
      | P_loop \<Rightarrow>
          Some (if stop_event s then s\<lparr>preprocessor_pc := P_done\<rparr>
                else s\<lparr>preprocessor_pc := P_get\<rparr>)
      | P_get \<Rightarrow>
          (case get (preprocess_queue s) of
             None \<Rightarrow> Some (s\<lparr>preprocessor_pc := P_loop\<rparr>)
           | Some (frame, q) \<Rightarrow> Some (s\<lparr>preprocess_queue := q, preprocessor_pc := P_put frame\<rparr>))
      | P_put None \<Rightarrow>
          (case put None (inference_queue s) of
             Some q \<Rightarrow>
               Some (s\<lparr>inference_queue := q, preprocessor_pc := P_done,
                       events := events s @ [SentinelPut InfQ]\<rparr>)
           | None \<Rightarrow> None)
      | P_put (Some frame) \<Rightarrow>
          (case put (Some frame) (inference_queue s) of
             Some q \<Rightarrow> Some (s\<lparr>inference_queue := q, preprocessor_pc := P_loop\<rparr>)
           | None \<Rightarrow> None)
      | P_done \<Rightarrow> None)"

text \<open>\<^verbatim>\<open>self.det_model.predict(frame).results if self.det_model else []\<close>\<close>

definition detect :: "config \<Rightarrow> sys \<Rightarrow> frame \<Rightarrow> detection list option" where
  "detect cfg s frame =
     (case det_model s of None \<Rightarrow> Some [] | Some m \<Rightarrow> predict cfg m frame)"

definition inference_thread :: "config \<Rightarrow> sys \<Rightarrow> sys option" where
  "inference_thread cfg s =
     (case inference_pc s of
        I_idle \<Rightarrow> None
      | I_loop \<Rightarrow>
          Some (if stop_event s then s\<lparr>inference_pc := I_done\<rparr>
                else s\<lparr>inference_pc := I_get\<rparr>)
      | I_get \<Rightarrow>
          (case get (inference_queue s) of
             None \<Rightarrow> Some (s\<lparr>inference_pc := I_loop\<rparr>)
           | Some (None, q) \<Rightarrow> Some (s\<lparr>inference_queue := q, inference_pc := I_put None\<rparr>)
           | Some (Some frame, q) \<Rightarrow>
               Some (s\<lparr>inference_queue := q, inference_pc := I_predict frame\<rparr>))
      | I_predict frame \<Rightarrow>
          (case detect cfg s frame of
             None \<Rightarrow> Some (s\<lparr>inference_pc := I_loop\<rparr>)
           | Some detection_results \<Rightarrow>
               Some (s\<lparr>inference_pc := I_put (Some (frame, detection_results))\<rparr>))
      | I_put None \<Rightarrow>
          (case put None (postprocess_queue s) of
             Some q \<Rightarrow>
               Some (s\<lparr>postprocess_queue := q, inference_pc := I_done,
                       events := events s @ [SentinelPut PostQ]\<rparr>)
           | None \<Rightarrow> None)
      | I_put (Some data) \<Rightarrow>
          (case put (Some data) (postprocess_queue s) of
             Some q \<Rightarrow> Some (s\<lparr>postprocess_queue := q, inference_pc := I_loop\<rparr>)
           | None \<Rightarrow> None)
      | I_done \<Rightarrow> None)"

text \<open>
  Lines 195 to 219 for one dequeued item: the JPEG to publish, \<open>None\<close> when an exception
  ends the iteration (it is logged) or the encoder's flag is false.  The function that
  line 201 calls is the parameter \<open>align\<close> of \<open>postprocess_frame_with\<close>; the stage calls
  \<^verbatim>\<open>align_and_crop(original_frame, landmarks)\<close>, with the default size 112.
\<close>

definition postprocess_frame_with ::
  "(image \<Rightarrow> point list \<Rightarrow> error + image \<times> matrix) \<Rightarrow> config \<Rightarrow> model option \<Rightarrow> frame
     \<Rightarrow> detection list \<Rightarrow> jpeg option" where
  "postprocess_frame_with align cfg rm original_frame detected_faces_data =
     (case
        (case rm of
           None \<Rightarrow> Some []
         | Some m \<Rightarrow>
             if detected_faces_data = [] then Some []
             else
               (case collect_aligned align (image_of cfg original_frame)
                       detected_faces_data of
                  Inl e \<Rightarrow> None
                | Inr (aligned_faces, valid_faces_meta) \<Rightarrow>
                    if aligned_faces = [] then Some []
                    else recognise cfg m aligned_faces valid_faces_meta))
      of
        None \<Rightarrow> None
      | Some final_results \<Rightarrow> encode cfg original_frame final_results)"

definition postprocess_frame ::
  "config \<Rightarrow> model option \<Rightarrow> frame \<Rightarrow> detection list \<Rightarrow> jpeg option" where
  "postprocess_frame cfg rm original_frame detected_faces_data =
     postprocess_frame_with (\<lambda>img lms. align_and_crop (opencv cfg) img lms 112) cfg rm
       original_frame detected_faces_data"

definition postprocessor_thread :: "config \<Rightarrow> sys \<Rightarrow> sys option" where
  "postprocessor_thread cfg s =
     (case postprocessor_pc s of
        O_idle \<Rightarrow> None
      | O_loop \<Rightarrow>
          Some (if stop_event s then s\<lparr>postprocessor_pc := O_exit\<rparr>
                else s\<lparr>postprocessor_pc := O_get\<rparr>)
      | O_get \<Rightarrow>
          (case get (postprocess_queue s) of
             None \<Rightarrow> Some (s\<lparr>postprocessor_pc := O_loop\<rparr>)
           | Some (None, q) \<Rightarrow> Some (s\<lparr>postprocess_queue := q, postprocessor_pc := O_exit\<rparr>)
           | Some (Some data, q) \<Rightarrow>
               Some (s\<lparr>postprocess_queue := q, postprocessor_pc := O_process data\<rparr>))
      | O_process data \<Rightarrow>
          (case postprocess_frame cfg (rec_model s) (fst data) (snd data) of
             None \<Rightarrow> Some (s\<lparr>postprocessor_pc := O_loop\<rparr>)
           | Some encodedImage \<Rightarrow>
               (case put_nowait (Some encodedImage) (output_queue s) of
                  Some q \<Rightarrow>
                    Some (s\<lparr>output_queue := q, postprocessor_pc := O_loop,
                            events := events s @ [Published (fst data)]\<rparr>)
                | None \<Rightarrow> Some (s\<lparr>postprocessor_pc := O_loop\<rparr>)))
      | O_exit \<Rightarrow>
          (case put_nowait None (output_queue s) of
             Some q \<Rightarrow>
               Some (s\<lparr>output_queue := q, postprocessor_pc := O_done,
                       events := events s @ [SentinelOut]\<rparr>)
           | None \<Rightarrow> Some (s\<lparr>postprocessor_pc := O_done\<rparr>))
      | O_done \<Rightarrow> None)"

subsection \<open>\<^verbatim>\<open>stop\<close>, the driver thread and the manager\<close>

text \<open>
  \<^verbatim>\<open>FaceStreamPipeline.stop\<close>, one step at a time, for a caller at location \<open>l\<close>: the
  state after the step and the location that follows, \<open>None\<close> once the call has
  returned.  \<open>S_check\<close> is the test of line 79, \<open>S_set\<close> line 81, \<open>S_join\<close> the loop of
  joins (each returns after at most a second, whether or not the thread has ended, and
  changes nothing), \<open>S_cap\<close> lines 91 to 93, \<open>S_drain\<close> one turn of the loop of line 97 on
  one queue, \<open>S_models\<close> the test of line 102, \<open>S_release\<close> line 103 (which reads
  \<^verbatim>\<open>self.models\<close> again), \<open>S_clear\<close> lines 105 to 107.
\<close>

definition stop_step :: "stop_loc \<Rightarrow> sys \<Rightarrow> (sys \<times> stop_loc option) option" where
  "stop_step l s =
     (case l of
        S_check \<Rightarrow> Some (s, if stop_event s then None else Some S_set)
      | S_set \<Rightarrow> Some (s\<lparr>stop_event := True\<rparr>, Some S_join)
      | S_join \<Rightarrow> Some (s, Some S_cap)
      | S_cap \<Rightarrow>
          Some (if cap_isOpened s then s\<lparr>cap := Some False\<rparr> else s, Some (S_drain PreQ))
      | S_drain PreQ \<Rightarrow>
          (case get (preprocess_queue s) of
             None \<Rightarrow> Some (s, Some (S_drain InfQ))
           | Some (x, q) \<Rightarrow> Some (s\<lparr>preprocess_queue := q\<rparr>, Some (S_drain PreQ)))
      | S_drain InfQ \<Rightarrow>
          (case get (inference_queue s) of
             None \<Rightarrow> Some (s, Some (S_drain PostQ))
           | Some (x, q) \<Rightarrow> Some (s\<lparr>inference_queue := q\<rparr>, Some (S_drain InfQ)))
      | S_drain PostQ \<Rightarrow>
          (case get (postprocess_queue s) of
             None \<Rightarrow> Some (s, Some S_models)
           | Some (x, q) \<Rightarrow> Some (s\<lparr>postprocess_queue := q\<rparr>, Some (S_drain PostQ)))
      | S_models \<Rightarrow> Some (s, if models s \<noteq> None then Some S_release else None)
      | S_release \<Rightarrow>
          (case release (models s) (model_pool s) of
             None \<Rightarrow> None
           | Some p \<Rightarrow> Some (s\<lparr>model_pool := p\<rparr>, Some S_clear))
      | S_clear \<Rightarrow> Some (s\<lparr>models := None, det_model := None, rec_model := None\<rparr>, None))"

text \<open>\<^verbatim>\<open>all(t.is_alive() for t in self.threads)\<close> once the four threads are started.\<close>

definition all_alive :: "sys \<Rightarrow> bool" where
  "all_alive s =
     (reader_pc s \<notin> {R_idle, R_done} \<and> preprocessor_pc s \<notin> {P_idle, P_done}
      \<and> inference_pc s \<notin> {I_idle, I_done} \<and> postprocessor_pc s \<notin> {O_idle, O_done})"

text \<open>
  \<^verbatim>\<open>FaceStreamPipeline.start\<close>, run by the driver thread.  \<open>D_acquire\<close> is lines 51 to
  56 once \<^verbatim>\<open>self._pool.get(timeout=5.0)\<close> has an element (the thread waits while the
  pool is empty), \<open>D_open\<close> lines 59 to 62, \<open>D_start_threads\<close> line 64, \<open>D_monitor\<close> one
  turn of the loop of line 66, \<open>D_stop\<close> the \<^verbatim>\<open>stop\<close> of the \<^verbatim>\<open>finally\<close> clause.
  Line 64 is one step here: the code appends and starts the four threads one by one,
  and a join of a thread that is in \<^verbatim>\<open>self.threads\<close> but not yet started raises
  RuntimeError; the model starts them together and has no such state.
\<close>

definition driver_thread :: "config \<Rightarrow> sys \<Rightarrow> sys option" where
  "driver_thread cfg s =
     (case driver_pc s of
        D_acquire \<Rightarrow>
          (case acquire (model_pool s) of
             (None, p) \<Rightarrow> None
           | (Some None, p) \<Rightarrow>
               Some (s\<lparr>model_pool := p, models := None, driver_pc := D_stop S_check\<rparr>)
           | (Some (Some m), p) \<Rightarrow>
               Some (s\<lparr>model_pool := p, models := Some m, det_model := Some (fst m),
                       rec_model := Some (snd m), driver_pc := D_open\<rparr>))
      | D_open \<Rightarrow>
          Some (if source_opens cfg then s\<lparr>cap := Some True, driver_pc := D_start_threads\<rparr>
                else s\<lparr>cap := Some False, driver_pc := D_stop S_check\<rparr>)
      | D_start_threads \<Rightarrow>
          Some (s\<lparr>reader_pc := R_loop, preprocessor_pc := P_loop, inference_pc := I_loop,
                  postprocessor_pc := O_loop, driver_pc := D_monitor\<rparr>)
      | D_monitor \<Rightarrow>
          Some (if stop_event s then s\<lparr>driver_pc := D_stop S_check\<rparr>
                else if \<not> all_alive s then s\<lparr>driver_pc := D_stop S_check\<rparr>
                else s)
      | D_stop l \<Rightarrow>
          (case stop_step l s of
             None \<Rightarrow> None
           | Some (s', None) \<Rightarrow> Some (s'\<lparr>driver_pc := D_done\<rparr>)
           | Some (s', Some l') \<Rightarrow> Some (s'\<lparr>driver_pc := D_stop l'\<rparr>))
      | D_done \<Rightarrow> None)"

text \<open>
  The wait of line 51 runs out: \<^verbatim>\<open>acquire\<close> returns \<^verbatim>\<open>None\<close> after its five seconds
  on an empty pool, and \<^verbatim>\<open>start\<close> returns through its \<^verbatim>\<open>finally\<close> clause.
\<close>

definition acquire_timeout :: "sys \<Rightarrow> sys option" where
  "acquire_timeout s =
     (if driver_pc s = D_acquire \<and> pool (model_pool s) = []
      then Some (s\<lparr>models := None, driver_pc := D_stop S_check\<rparr>)
      else None)"

text \<open>
  \<^verbatim>\<open>StreamManagerService.stop_stream\<close> for this session, after the registry entry is
  popped: \<open>M_idle\<close> is the test \<^verbatim>\<open>thread.is_alive()\<close> of line 83, \<open>M_stop\<close> the call of
  \<^verbatim>\<open>pipeline.stop()\<close>, \<open>M_join\<close> the join of line 85.
\<close>

definition stop_stream :: "sys \<Rightarrow> sys option" where
  "stop_stream s =
     (case manager_pc s of
        M_idle \<Rightarrow>
          Some (if driver_pc s \<noteq> D_done then s\<lparr>manager_pc := M_stop S_check\<rparr>
                else s\<lparr>manager_pc := M_done\<rparr>)
      | M_stop l \<Rightarrow>
          (case stop_step l s of
             None \<Rightarrow> None
           | Some (s', None) \<Rightarrow> Some (s'\<lparr>manager_pc := M_join\<rparr>)
           | Some (s', Some l') \<Rightarrow> Some (s'\<lparr>manager_pc := M_stop l'\<rparr>))
      | M_join \<Rightarrow> Some (s\<lparr>manager_pc := M_done\<rparr>)
      | M_done \<Rightarrow> None)"

text \<open>
  The loop of \<^verbatim>\<open>get_stream_feed\<close>: \<open>F_loop\<close> is the test of line 99, \<open>F_get\<close> lines 101
  to 104.
\<close>

definition get_stream_feed :: "sys \<Rightarrow> sys option" where
  "get_stream_feed s =
     (case feed_pc s of
        F_loop \<Rightarrow>
          Some (if driver_pc s = D_done \<and> output_queue s = [] then s\<lparr>feed_pc := F_done\<rparr>
                else s\<lparr>feed_pc := F_get\<rparr>)
      | F_get \<Rightarrow>
          (case get (output_queue s) of
             None \<Rightarrow> Some (s\<lparr>feed_pc := F_loop\<rparr>)
           | Some (None, q) \<Rightarrow> Some (s\<lparr>output_queue := q, feed_pc := F_done\<rparr>)
           | Some (Some frame_bytes, q) \<Rightarrow>
               Some (s\<lparr>output_queue := q, feed_pc := F_loop,
                       events := events s @ [Yielded frame_bytes]\<rparr>))
      | F_done \<Rightarrow> None)"

subsection \<open>Interleavings\<close>

text \<open>
  The threads of a session, and the other users of the shared pool (other sessions, the
  face services), take their steps in any order.  A schedule names who moves next.
\<close>

datatype actor =
  Reader | Preprocessor | Inference | Postprocessor | Driver | AcquireTimeout | Manager | Feed
  | OtherAcquire | OtherRelease rset

fun step :: "config \<Rightarrow> actor \<Rightarrow> sys \<Rightarrow> sys option" where
  "step cfg Reader s = reader_thread cfg s"
| "step cfg Preprocessor s = preprocessor_thread s"
| "step cfg Inference s = inference_thread cfg s"
| "step cfg Postprocessor s = postprocessor_thread cfg s"
| "step cfg Driver s = driver_thread cfg s"
| "step cfg AcquireTimeout s = acquire_timeout s"
| "step cfg Manager s = stop_stream s"
| "step cfg Feed s = get_stream_feed s"
| "step cfg OtherAcquire s = Some (s\<lparr>model_pool := snd (acquire (model_pool s))\<rparr>)"
| "step cfg (OtherRelease m) s =
     (case release (Some m) (model_pool s) of
        None \<Rightarrow> None
      | Some p \<Rightarrow> Some (s\<lparr>model_pool := p\<rparr>))"

fun run :: "config \<Rightarrow> actor list \<Rightarrow> sys \<Rightarrow> sys option" where
  "run cfg [] s = Some s"
| "run cfg (a # as) s = (case step cfg a s of None \<Rightarrow> None | Some s' \<Rightarrow> run cfg as s')"

text \<open>The states a session can be in: those some schedule reaches from a fresh session.\<close>

definition reachable :: "config \<Rightarrow> sys \<Rightarrow> bool" where
  "reachable cfg s = (\<exists>p src sched. run cfg sched (init_sys p src) = Some s)"

text \<open>What the observer's list says.\<close>

definition frames_read :: "event list \<Rightarrow> frame list" where
  "frames_read es = concat (map (\<lambda>e. case e of FrameRead f \<Rightarrow> [f] | _ \<Rightarrow> []) es)"

definition frames_published :: "event list \<Rightarrow> frame list" where
  "frames_published es = concat (map (\<lambda>e. case e of Published f \<Rightarrow> [f] | _ \<Rightarrow> []) es)"

definition sentinels_put :: "qname \<Rightarrow> event list \<Rightarrow> nat" where
  "sentinels_put qn es = length (filter (\<lambda>e. e = SentinelPut qn) es)"

definition sentinels_out :: "event list \<Rightarrow> nat" where
  "sentinels_out es = length (filter (\<lambda>e. e = SentinelOut) es)"

section \<open>Starting a stream (app/service/stream_manager_service.py)\<close>

text \<open>
  \<^verbatim>\<open>start_stream\<close> starts the driver thread, sleeps (\<^verbatim>\<open>asyncio.sleep(0.2)\<close>), and
  then asks \<^verbatim>\<open>process_thread.is_alive()\<close>: a dead thread is answered with HTTP 503,
  a live one is registered.  The driver meanwhile is in \<^verbatim>\<open>start\<close>, first of all in
  \<^verbatim>\<open>self.model_pool.acquire(timeout=5.0)\<close>.  Which of the two happens first is a
  matter of time, so this part of the model carries a clock, in milliseconds from the
  moment the driver thread starts:
  \<^item> \<open>next_release_ms\<close>: when the pool is empty, the moment another user of the pool
    puts a set back (\<open>None\<close>: nobody does);
  \<^item> \<open>open_ms\<close>, \<open>opens\<close>: how long \<^verbatim>\<open>cv2.VideoCapture\<close> takes and whether the source
    is open afterwards;
  \<^item> \<open>monitor_end_ms\<close>: how long after the driver has reached its monitor loop the
    driver thread ends, because a turn of the loop found a stage thread dead or the
    flag set and the \<^verbatim>\<open>stop\<close> that follows has returned (\<open>None\<close>: the session runs on);
  \<^item> \<open>loop_delay_ms\<close>: by how much the event loop resumes the coroutine later than the
    0.2 seconds it asked for.
\<close>

definition acquire_timeout_ms :: nat where
  "acquire_timeout_ms = 5000"

definition grace_ms :: nat where
  "grace_ms = 200"

record start_env =
  next_release_ms :: "nat option"
  open_ms :: nat
  opens :: bool
  monitor_end_ms :: "nat option"
  loop_delay_ms :: nat

text \<open>
  The moment the driver thread ends, \<open>None\<close> when the session runs on.  \<open>after_acquire t\<close>
  is the rest of \<^verbatim>\<open>start\<close> for a driver that got its set at the moment \<open>t\<close>.  With no
  set and no stage threads the \<^verbatim>\<open>stop\<close> of the \<^verbatim>\<open>finally\<close> clause takes no time.
\<close>

definition after_acquire :: "start_env \<Rightarrow> nat \<Rightarrow> nat option" where
  "after_acquire env t =
     (if opens env
      then (case monitor_end_ms env of None \<Rightarrow> None | Some d \<Rightarrow> Some (t + open_ms env + d))
      else Some (t + open_ms env))"

definition driver_end_ms :: "'r ModelPool \<Rightarrow> start_env \<Rightarrow> nat option" where
  "driver_end_ms p env =
     (case pool p of
        [] \<Rightarrow>
          (case next_release_ms env of
             None \<Rightarrow> Some acquire_timeout_ms
           | Some t \<Rightarrow>
               if t < acquire_timeout_ms then after_acquire env t
               else Some acquire_timeout_ms)
      | m # q \<Rightarrow> after_acquire env 0)"

datatype start_result = Registered | ServiceBusy

definition start_stream :: "'r ModelPool \<Rightarrow> start_env \<Rightarrow> start_result" where
  "start_stream p env =
     (case driver_end_ms p env of
        None \<Rightarrow> Registered
      | Some t \<Rightarrow> if t \<le> grace_ms + loop_delay_ms env then ServiceBusy else Registered)"

section \<open>Sample sessions\<close>

text \<open>
  A configuration for a video file whose frames show no face: the detector finds
  nothing and the encoder turns frame \<open>k\<close> into the one byte \<open>k\<close>.
\<close>

definition no_cv2 :: cv2 where
  "no_cv2 =
     \<lparr>estimateAffinePartial2D = (\<lambda>src dst. (np_zeros_matrix, None)),
      sample = (\<lambda>img M x y. (0, 0, 0)),
      warp_empty = (\<lambda>img M n. Inl ValueError)\<rparr>"

definition file_cfg :: config where
  "file_cfg =
     \<lparr>video_source = ''video.mp4'', source_opens = True, image_of = (\<lambda>frame. []),
      predict = (\<lambda>m frame. Some []), opencv = no_cv2,
      recognise = (\<lambda>m faces metas. Some []), encode = (\<lambda>frame results. Some [frame])\<rparr>"

text \<open>A pool of one set that is free, and the same pool while another user holds the set.\<close>

definition pool_free :: "rset option ModelPool" where
  "pool_free = \<lparr>pool_size = 1, pool = [Some (0, 1)]\<rparr>"

definition pool_taken :: "rset option ModelPool" where
  "pool_taken = \<lparr>pool_size = 1, pool = []\<rparr>"

text \<open>The driver from the start of its thread to the monitor loop.\<close>

definition startup :: "actor list" where
  "startup = [Driver, Driver, Driver]"

text \<open>One frame from the source to the output queue, each stage in turn.\<close>

definition one_frame :: "actor list" where
  "one_frame =
     [Reader, Reader, Reader, Preprocessor, Preprocessor, Preprocessor,
      Inference, Inference, Inference, Inference, Postprocessor, Postprocessor, Postprocessor]"

text \<open>The reader finds the end of the file, and the sentinel goes from stage to stage.\<close>

definition end_of_file :: "actor list" where
  "end_of_file =
     [Reader, Reader, Reader, Preprocessor, Preprocessor, Preprocessor,
      Inference, Inference, Inference, Postprocessor, Postprocessor, Postprocessor]"

text \<open>
  The session on the free pool once the driver has reached its monitor loop: the set is
  checked out, the source is open, the four stage threads are at the head of their loops.
\<close>

definition running :: "frame option list \<Rightarrow> sys" where
  "running src =
     \<lparr>model_pool = pool_taken, stop_event = False, models = Some (0, 1), det_model = Some 0,
      rec_model = Some 1, cap = Some True, source = src, preprocess_queue = [],
      inference_queue = [], postprocess_queue = [], output_queue = [], reader_pc = R_loop,
      preprocessor_pc = P_loop, inference_pc = I_loop, postprocessor_pc = O_loop,
      driver_pc = D_monitor, manager_pc = M_idle, feed_pc = F_loop, events = []\<rparr>"

text \<open>
  Saturation: the reader runs alone on a source of 31 frames.  Thirty frames fill the
  first queue, the reader holds the next one.
\<close>

definition saturation :: "actor list" where
  "saturation = startup @ concat (replicate 30 [Reader, Reader, Reader]) @ [Reader, Reader]"

definition saturated_state :: sys where
  "saturated_state =
     (running [])\<lparr>preprocess_queue := map Some [0..<30], reader_pc := R_put 30,
        events := map FrameRead [0..<31]\<rparr>"

text \<open>
  An encoder that fails on the odd frames, and three frames that go through the stages
  one after the other.
\<close>

definition odd_fails_cfg :: config where
  "odd_fails_cfg =
     file_cfg\<lparr>encode := (\<lambda>frame results. if even frame then Some [frame] else None)\<rparr>"

definition three_frames :: "actor list" where
  "three_frames = startup @ one_frame @ one_frame @ one_frame"

definition three_frames_state :: sys where
  "three_frames_state =
     (running [])\<lparr>output_queue := [Some [0], Some [2]],
        events := [FrameRead 0, Published 0, FrameRead 1, FrameRead 2, Published 2]\<rparr>"

text \<open>
  A file of thirty frames read to its end while nothing consumes the output queue: the
  state after the last stage thread has ended.
\<close>

definition unwatched_file :: "actor list" where
  "unwatched_file = startup @ concat (replicate 30 one_frame) @ end_of_file"

definition unwatched_file_state :: sys where
  "unwatched_file_state =
     (running [])\<lparr>output_queue := map (\<lambda>k. Some [k]) [0..<30], reader_pc := R_done,
        preprocessor_pc := P_done, inference_pc := I_done, postprocessor_pc := O_done,
        events := concat (map (\<lambda>k. [FrameRead k, Published k]) [0..<30])
          @ [SentinelPut PreQ, SentinelPut InfQ, SentinelPut PostQ]\<rparr>"

text \<open>
  An empty file: the sentinel in the hands of the second stage, of the third, the last
  stage about to leave, and the feed about to take the sentinel from the output queue.
\<close>

definition sentinel_at_pre :: sys where
  "sentinel_at_pre =
     (running [])\<lparr>reader_pc := R_done, preprocessor_pc := P_put None,
        events := [SentinelPut PreQ]\<rparr>"

definition sentinel_at_inf :: sys where
  "sentinel_at_inf =
     (running [])\<lparr>reader_pc := R_done, preprocessor_pc := P_done, inference_pc := I_put None,
        events := [SentinelPut PreQ, SentinelPut InfQ]\<rparr>"

definition sentinel_at_post :: sys where
  "sentinel_at_post =
     (running [])\<lparr>reader_pc := R_done, preprocessor_pc := P_done, inference_pc := I_done,
        postprocessor_pc := O_exit,
        events := [SentinelPut PreQ, SentinelPut InfQ, SentinelPut PostQ]\<rparr>"

definition sentinel_at_feed :: sys where
  "sentinel_at_feed =
     (running [])\<lparr>output_queue := [None], reader_pc := R_done, preprocessor_pc := P_done,
        inference_pc := I_done, postprocessor_pc := O_done, feed_pc := F_get,
        events := [SentinelPut PreQ, SentinelPut InfQ, SentinelPut PostQ, SentinelOut]\<rparr>"

text \<open>
  A stop by the manager after one frame.  \<open>stop_and_join\<close>: the manager sets the flag,
  every stage thread sees it and ends, the joins return.  \<open>stop_rest\<close>: the rest of
  \<^verbatim>\<open>stop\<close>, then the driver leaves its loop.
\<close>

definition stop_and_join :: "actor list" where
  "stop_and_join =
     startup @ one_frame @ [Manager, Manager, Manager]
     @ [Reader, Reader, Preprocessor, Inference, Postprocessor, Postprocessor] @ [Manager]"

definition stop_rest :: "actor list" where
  "stop_rest = replicate 9 Manager @ [Driver, Driver]"

definition joined_state :: sys where
  "joined_state =
     (running [])\<lparr>stop_event := True, preprocess_queue := [None],
        output_queue := [Some [7], None], reader_pc := R_done, preprocessor_pc := P_done,
        inference_pc := I_done, postprocessor_pc := O_done, manager_pc := M_stop S_cap,
        events := [FrameRead 7, Published 7, SentinelPut PreQ, SentinelOut]\<rparr>"

definition stopped_state :: sys where
  "stopped_state =
     joined_state\<lparr>model_pool := pool_free, models := None, det_model := None,
        rec_model := None, cap := Some False, preprocess_queue := [], driver_pc := D_done,
        manager_pc := M_done\<rparr>"

text \<open>
  The driver's own stop on an empty file: the reader ends, the driver sees it and sets
  the flag, the other stage threads end, the joins return (\<open>own_stop_and_join\<close>); then
  the rest of \<^verbatim>\<open>stop\<close> (\<open>own_stop_rest\<close>).
\<close>

definition own_stop_and_join :: "actor list" where
  "own_stop_and_join =
     startup @ [Reader, Reader, Reader] @ [Driver, Driver, Driver]
     @ [Preprocessor, Inference, Postprocessor, Postprocessor] @ [Driver]"

definition own_stop_rest :: "actor list" where
  "own_stop_rest = replicate 8 Driver"

definition own_joined_state :: sys where
  "own_joined_state =
     (running [])\<lparr>stop_event := True, preprocess_queue := [None], output_queue := [None],
        reader_pc := R_done, preprocessor_pc := P_done, inference_pc := I_done,
        postprocessor_pc := O_done, driver_pc := D_stop S_cap,
        events := [SentinelPut PreQ, SentinelOut]\<rparr>"

definition own_stopped_state :: sys where
  "own_stopped_state =
     own_joined_state\<lparr>model_pool := pool_free, models := None, det_model := None,
        rec_model := None, cap := Some False, preprocess_queue := [], driver_pc := D_done\<rparr>"

text \<open>
  The pool is empty when the session starts.  The manager stops the session while the
  driver waits in \<^verbatim>\<open>acquire\<close>; then another user puts the set \<open>(0, 1)\<close> back, the driver
  gets it, opens the source, starts the threads, and leaves through its \<^verbatim>\<open>finally\<close>
  clause; the stage threads end.
\<close>

definition stop_while_acquiring :: "actor list" where
  "stop_while_acquiring =
     replicate 10 Manager @ [OtherRelease (0, 1)] @ replicate 5 Driver
     @ [Reader, Reader, Preprocessor, Inference, Postprocessor, Postprocessor]"

definition leaked_state :: sys where
  "leaked_state =
     (running [])\<lparr>stop_event := True, preprocess_queue := [None], output_queue := [None],
        reader_pc := R_done, preprocessor_pc := P_done, inference_pc := I_done,
        postprocessor_pc := O_done, driver_pc := D_done, manager_pc := M_done,
        events := [SentinelPut PreQ, SentinelOut]\<rparr>"

text \<open>
  A pool of two sets, one of them with another user.  The session plays an empty file:
  the reader ends at once, the driver sees a dead thread and calls \<^verbatim>\<open>stop\<close> while the
  manager's \<^verbatim>\<open>stop_stream\<close> calls it too.  Both calls test the flag before either
  sets it, and both test \<^verbatim>\<open>self.models\<close> before either clears it.
\<close>

definition pool_shared :: "rset option ModelPool" where
  "pool_shared = \<lparr>pool_size = 2, pool = [Some (0, 1)]\<rparr>"

definition two_stops :: "actor list" where
  "two_stops =
     startup @ [Reader, Reader, Reader] @ [Driver, Manager, Driver, Manager]
     @ replicate 8 Driver @ replicate 7 Manager @ [Driver, Manager, Driver, Manager, Manager]"

definition released_twice_state :: sys where
  "released_twice_state =
     (running [])\<lparr>model_pool := \<lparr>pool_size = 2, pool = [Some (0, 1), Some (0, 1)]\<rparr>,
        stop_event := True, models := None, det_model := None, rec_model := None,
        cap := Some False, reader_pc := R_done, driver_pc := D_done, manager_pc := M_done,
        events := [SentinelPut PreQ]\<rparr>"

text \<open>Two faces of one frame: one with three landmarks, one with five.\<close>

definition face_three :: detection where
  "face_three = \<lparr>landmarks = Some [(1, 1), (2, 2), (3, 3)], bbox = [0, 0, 4, 4], score = 1\<rparr>"

definition face_five :: detection where
  "face_five = \<lparr>landmarks = Some arcface_ref_kps, bbox = [0, 0, 112, 112], score = 1\<rparr>"

text \<open>
  A configuration whose detector finds these two faces in every frame, whose recogniser
  answers Unknown for every aligned face it is given, and whose encoder turns frame \<open>k\<close>
  with \<open>n\<close> results into the two bytes \<open>k\<close>, \<open>n\<close>.
\<close>

definition faces_cfg :: config where
  "faces_cfg =
     file_cfg\<lparr>predict := (\<lambda>m frame. Some [face_three, face_five]),
        recognise := (\<lambda>m faces metas. Some (map (\<lambda>d. (bbox d, ''Unknown'', None)) metas)),
        encode := (\<lambda>frame results. Some [frame, length results])\<rparr>"

text \<open>The last stage holding frame 7 with the two faces, and the state after its step.\<close>

definition two_faces_state :: sys where
  "two_faces_state = (running [])\<lparr>postprocessor_pc := O_process (7, [face_three, face_five])\<rparr>"

definition two_faces_published :: sys where
  "two_faces_published = (running [])\<lparr>output_queue := [Some [7, 1]], events := [Published 7]\<rparr>"

text \<open>An aligner that fails on every landmark list that does not have five points.\<close>

definition strict_align :: "image \<Rightarrow> point list \<Rightarrow> error + image \<times> matrix" where
  "strict_align img lms =
     (if length lms = 5 then align_and_crop no_cv2 img lms 112 else Inl RuntimeError)"

section \<open>Notions used to state and prove the properties\<close>

subsection \<open>Queue bounds\<close>

definition bounded :: "sys \<Rightarrow> bool" where
  "bounded s =
     (length (preprocess_queue s) \<le> maxsize \<and> length (inference_queue s) \<le> maxsize
      \<and> length (postprocess_queue s) \<le> maxsize \<and> length (output_queue s) \<le> maxsize)"

subsection \<open>Frames on their way\<close>

text \<open>
  The frames inside the pipeline, the one nearest to the output first: what each stage
  holds in a local variable and what waits in each queue.
\<close>

fun frame_of :: "frame option \<Rightarrow> frame list" where
  "frame_of None = []"
| "frame_of (Some f) = [f]"

fun frame_of_data :: "(frame \<times> detection list) option \<Rightarrow> frame list" where
  "frame_of_data None = []"
| "frame_of_data (Some d) = [fst d]"

definition frames_of :: "frame option list \<Rightarrow> frame list" where
  "frames_of q = concat (map frame_of q)"

definition frames_of_data :: "(frame \<times> detection list) option list \<Rightarrow> frame list" where
  "frames_of_data q = concat (map frame_of_data q)"

fun reader_holds :: "reader_loc \<Rightarrow> frame list" where
  "reader_holds (R_put f) = [f]"
| "reader_holds _ = []"

fun pre_holds :: "pre_loc \<Rightarrow> frame list" where
  "pre_holds (P_put x) = frame_of x"
| "pre_holds _ = []"

fun inf_holds :: "inf_loc \<Rightarrow> frame list" where
  "inf_holds (I_predict f) = [f]"
| "inf_holds (I_put x) = frame_of_data x"
| "inf_holds _ = []"

fun post_holds :: "post_loc \<Rightarrow> frame list" where
  "post_holds (O_process d) = [fst d]"
| "post_holds _ = []"

definition in_flight :: "sys \<Rightarrow> frame list" where
  "in_flight s =
     post_holds (postprocessor_pc s) @ frames_of_data (postprocess_queue s)
     @ inf_holds (inference_pc s) @ frames_of (inference_queue s)
     @ pre_holds (preprocessor_pc s) @ frames_of (preprocess_queue s)
     @ reader_holds (reader_pc s)"

definition ordered :: "sys \<Rightarrow> bool" where
  "ordered s = subseq (frames_published (events s) @ in_flight s) (frames_read (events s))"

text \<open>
  The three things a step can do to these lists: lose frames or leave them alone, read
  a new frame at the far end, publish the frame nearest to the output.
\<close>

definition moves :: "sys \<Rightarrow> sys \<Rightarrow> bool" where
  "moves s s' =
     ((frames_read (events s') = frames_read (events s)
        \<and> frames_published (events s') = frames_published (events s)
        \<and> subseq (in_flight s') (in_flight s))
      \<or> (\<exists>f. frames_read (events s') = frames_read (events s) @ [f]
            \<and> frames_published (events s') = frames_published (events s)
            \<and> in_flight s' = in_flight s @ [f])
      \<or> (\<exists>f. frames_read (events s') = frames_read (events s)
            \<and> frames_published (events s') = frames_published (events s) @ [f]
            \<and> in_flight s = f # in_flight s'))"

subsection \<open>Sentinels\<close>

fun starting :: "driver_loc \<Rightarrow> bool" where
  "starting D_acquire = True"
| "starting D_open = True"
| "starting D_start_threads = True"
| "starting _ = False"

definition stages_idle :: "sys \<Rightarrow> bool" where
  "stages_idle s =
     (reader_pc s = R_idle \<and> preprocessor_pc s = P_idle
      \<and> inference_pc s = I_idle \<and> postprocessor_pc s = O_idle)"

text \<open>A count that is 0, or 1 once the thread that counts has ended.\<close>

definition once :: "nat \<Rightarrow> bool \<Rightarrow> bool" where
  "once n ended = (n = 0 \<or> (n = 1 \<and> ended))"

definition sentinel_inv :: "sys \<Rightarrow> bool" where
  "sentinel_inv s =
     ((starting (driver_pc s) \<longrightarrow> stages_idle s)
      \<and> once (sentinels_put PreQ (events s)) (reader_pc s = R_done)
      \<and> (reader_pc s = R_done \<longrightarrow> sentinels_put PreQ (events s) = 1)
      \<and> once (sentinels_put InfQ (events s)) (preprocessor_pc s = P_done)
      \<and> once (sentinels_put PostQ (events s)) (inference_pc s = I_done)
      \<and> once (sentinels_out (events s)) (postprocessor_pc s = O_done))"

subsection \<open>Draining\<close>

definition stages_done :: "sys \<Rightarrow> bool" where
  "stages_done s =
     (reader_pc s = R_done \<and> preprocessor_pc s = P_done
      \<and> inference_pc s = I_done \<and> postprocessor_pc s = O_done)"

text \<open>How many of the three queues a call of \<^verbatim>\<open>stop\<close> at this location has left behind.\<close>

fun drained_by :: "stop_loc \<Rightarrow> nat" where
  "drained_by S_check = 0"
| "drained_by S_set = 0"
| "drained_by S_join = 0"
| "drained_by S_cap = 0"
| "drained_by (S_drain PreQ) = 0"
| "drained_by (S_drain InfQ) = 1"
| "drained_by (S_drain PostQ) = 2"
| "drained_by S_models = 3"
| "drained_by S_release = 3"
| "drained_by S_clear = 3"

definition drained :: "nat \<Rightarrow> sys \<Rightarrow> bool" where
  "drained n s =
     ((1 \<le> n \<longrightarrow> preprocess_queue s = []) \<and> (2 \<le> n \<longrightarrow> inference_queue s = [])
      \<and> (3 \<le> n \<longrightarrow> postprocess_queue s = []))"

text \<open>
  The same count for the manager's call and for the driver's call, \<open>None\<close> while the call
  has not passed the test of line 79.
\<close>

fun manager_drained :: "manager_loc \<Rightarrow> nat option" where
  "manager_drained M_idle = None"
| "manager_drained (M_stop l) = (if l = S_check then None else Some (drained_by l))"
| "manager_drained M_join = Some 3"
| "manager_drained M_done = Some 3"

fun driver_drained :: "driver_loc \<Rightarrow> nat option" where
  "driver_drained (D_stop l) = (if l = S_check then None else Some (drained_by l))"
| "driver_drained D_done = Some 3"
| "driver_drained _ = None"

fun started :: "driver_loc \<Rightarrow> bool" where
  "started D_acquire = False"
| "started D_open = False"
| "started D_start_threads = False"
| "started _ = True"

definition manager_inv :: "sys \<Rightarrow> bool" where
  "manager_inv s =
     (stages_done s \<and> started (driver_pc s)
      \<and> (\<exists>n. manager_drained (manager_pc s) = Some n \<and> drained n s))"

definition driver_inv :: "sys \<Rightarrow> bool" where
  "driver_inv s =
     (stages_done s \<and> (\<exists>n. driver_drained (driver_pc s) = Some n \<and> drained n s))"

section \<open>Properties of the pool\<close>

lemma load_sets_length: "load_sets load i n = Inr q \<Longrightarrow> length q = n"
  by (induction n arbitrary: i q) (auto split: option.splits sum.splits)

lemma ModelPool_init_full:
  "ModelPool_init load n = Inr p \<Longrightarrow> pool_size p = n \<and> length (pool p) = n"
  by (auto simp: ModelPool_init_def split: sum.splits dest: load_sets_length)

lemma pool_step_balance:
  assumes "checked_out s + available s = capacity s"
    and "releases_acquired [c] s"
  shows "\<exists>s'. pool_step c s = Some s' \<and> checked_out s' + available s' = capacity s'
           \<and> capacity s' = capacity s"
proof (cases s)
  case (Pair p out)
  show ?thesis
  proof (cases c)
    case Acquire
    with Pair assms(1) show ?thesis
      by (auto simp: acquire_def checked_out_def available_def capacity_def split: list.splits)
  next
    case (Release m)
    with Pair assms have "m \<in> set out" by simp
    then have "length (remove1 m out) + 1 = length out" "out \<noteq> []"
      by (auto simp: length_remove1 intro: Suc_pred)
    with Pair Release assms(1) show ?thesis
      by (auto simp: release_def checked_out_def available_def capacity_def)
  qed
qed

lemma pool_run_balance:
  assumes "checked_out s + available s = capacity s"
    and "releases_acquired cs s"
  shows "\<exists>s'. pool_run cs s = Some s' \<and> checked_out s' + available s' = capacity s'
           \<and> capacity s' = capacity s"
  using assms
proof (induction cs arbitrary: s)
  case Nil
  then show ?case by simp
next
  case (Cons c cs)
  from Cons.prems(2) have one: "releases_acquired [c] s"
    by (cases c; cases s) (auto split: option.splits)
  from pool_step_balance [OF Cons.prems(1) one] obtain s1 where
    s1: "pool_step c s = Some s1" "checked_out s1 + available s1 = capacity s1"
      "capacity s1 = capacity s"
    by blast
  from Cons.prems(2) s1(1) have "releases_acquired cs s1"
    by (cases c; cases s) (auto split: option.splits)
  from Cons.IH [OF s1(2) this] s1 show ?case by auto
qed

text \<open>
  C1.  A pool built with capacity \<open>C\<close> runs any history of acquire and release calls
  in which every release gives back a set that is checked out: no call of the history
  blocks, and after it the number of checked-out sets plus the number of sets in the
  pool is \<open>C\<close>.  An acquire that times out (empty pool) changes neither the pool nor
  the checked-out sets.
\<close>

theorem pool_balance_invariant:
  assumes "ModelPool_init load C = Inr p0"
    and "releases_acquired calls (p0, [])"
  shows "(\<exists>s. pool_run calls (p0, []) = Some s \<and> checked_out s + available s = C
            \<and> capacity s = C)
         \<and> (\<forall>p out. fst (acquire p) = None \<longrightarrow> pool_step Acquire (p, out) = Some (p, out))"
proof
  from ModelPool_init_full [OF assms(1)]
  have "checked_out (p0, []) + available (p0, []) = capacity (p0, [])" "capacity (p0, []) = C"
    by (simp_all add: checked_out_def available_def capacity_def)
  with pool_run_balance [OF this(1) assms(2)]
  show "\<exists>s. pool_run calls (p0, []) = Some s \<and> checked_out s + available s = C
            \<and> capacity s = C"
    by auto
next
  show "\<forall>p out. fst (acquire p) = None \<longrightarrow> pool_step Acquire (p, out) = Some (p, out)"
    by (auto simp: acquire_def split: list.splits)
qed

theorem pool_balance_invariant_witness:
  "ModelPool_init (\<lambda>k. Some k) 2 = Inr (\<lparr>pool_size = 2, pool = [(0, 1), (2, 3)]\<rparr> :: rset ModelPool)
   \<and> releases_acquired [Acquire, Acquire, Acquire, Release (0 :: nat, 1 :: nat), Acquire]
        ((\<lparr>pool_size = 2, pool = [(0, 1), (2, 3)]\<rparr> :: rset ModelPool), [])
   \<and> (\<exists>s. pool_run [Acquire, Acquire, Acquire, Release (0 :: nat, 1 :: nat), Acquire]
        ((\<lparr>pool_size = 2, pool = [(0, 1), (2, 3)]\<rparr> :: rset ModelPool), []) = Some s
        \<and> checked_out s + available s = 2 \<and> capacity s = 2)
   \<and> fst (acquire (\<lparr>pool_size = 2, pool = []\<rparr> :: rset ModelPool)) = None
   \<and> pool_step Acquire ((\<lparr>pool_size = 2, pool = []\<rparr> :: rset ModelPool), [(2, 3), (0, 1)])
       = Some (\<lparr>pool_size = 2, pool = []\<rparr>, [(2, 3), (0, 1)])"
proof -
  have init: "ModelPool_init (\<lambda>k. Some k) 2
      = Inr (\<lparr>pool_size = 2, pool = [(0, 1), (2, 3)]\<rparr> :: rset ModelPool)"
    by (simp add: ModelPool_init_def numeral_2_eq_2)
  have legal: "releases_acquired [Acquire, Acquire, Acquire, Release (0 :: nat, 1 :: nat), Acquire]
        ((\<lparr>pool_size = 2, pool = [(0, 1), (2, 3)]\<rparr> :: rset ModelPool), [])"
    by (simp add: acquire_def release_def)
  have timeout: "fst (acquire (\<lparr>pool_size = 2, pool = []\<rparr> :: rset ModelPool)) = None"
    by (simp add: acquire_def)
  from pool_balance_invariant [OF init legal] init legal timeout show ?thesis
    by blast
qed

section \<open>Properties of the alignment\<close>

lemma has_shape_zeros: "has_shape (np_zeros_image n) n"
  by (simp add: has_shape_def np_zeros_image_def list_all_length)

lemma has_shape_warp: "0 < n \<Longrightarrow> warpAffine cv img M n = Inr a \<Longrightarrow> has_shape a (nat n)"
  by (auto simp: has_shape_def warpAffine_def list_all_length)

lemma align_and_crop_result:
  assumes "length lms = 5" and "0 < image_size"
    and "image_size mod 112 = 0 \<or> image_size mod 128 = 0"
  shows "\<exists>aligned M. align_and_crop cv img lms image_size = Inr (aligned, M)
     \<and> has_shape aligned (nat image_size)
     \<and> (degenerate (snd (estimateAffinePartial2D cv lms (dst_points image_size)))
          \<longrightarrow> aligned = np_zeros_image (nat image_size) \<and> M = np_zeros_matrix)"
  using assms
  by (auto simp: align_and_crop_def has_shape_zeros has_shape_warp split: prod.splits sum.splits)
    (auto simp: warpAffine_def)

text \<open>
  C7, counterexample.  896 is a multiple of 128 (and of 112): the code takes the branch
  of the multiples of 112, so the ratio is 896/112 = 8 and the horizontal offset is 0,
  not the ratio 896/128 = 7 with the offset 8 * 7 = 56 of the claim.
\<close>

theorem align_offset_896_counterexample:
  "(896 :: int) mod 128 = 0 \<and> ratio_diff_x 896 = (8, 0)
   \<and> ratio_diff_x 896 \<noteq> (896 / 128, 8 * (896 / 128))"
  by (simp add: ratio_diff_x_def)

text \<open>
  C7, amended.  For five landmarks and a positive target size: a multiple of 112 scales
  the reference points by size/112 with no horizontal offset; a multiple of 128 that is
  not a multiple of 112 scales them by size/128 and adds 8 * size/128 to each x; in both
  cases the call returns an image of exactly the target size, and a degenerate
  alignment returns the all-zero image of that size with the zero matrix, not an error.
\<close>

theorem align_and_crop_reference_points:
  assumes "length lms = 5" and "0 < image_size"
  shows "(image_size mod 112 = 0 \<longrightarrow>
            dst_points image_size =
              map (\<lambda>(x, y). (x * (real_of_int image_size / 112),
                              y * (real_of_int image_size / 112))) arcface_ref_kps)
         \<and> (image_size mod 112 \<noteq> 0 \<and> image_size mod 128 = 0 \<longrightarrow>
            dst_points image_size =
              map (\<lambda>(x, y). (x * (real_of_int image_size / 128)
                                + 8 * (real_of_int image_size / 128),
                              y * (real_of_int image_size / 128))) arcface_ref_kps)
         \<and> (image_size mod 112 = 0 \<or> image_size mod 128 = 0 \<longrightarrow>
            (\<exists>aligned M. align_and_crop cv img lms image_size = Inr (aligned, M)
               \<and> has_shape aligned (nat image_size)
               \<and> (degenerate (snd (estimateAffinePartial2D cv lms (dst_points image_size)))
                    \<longrightarrow> aligned = np_zeros_image (nat image_size) \<and> M = np_zeros_matrix)))"
proof (intro conjI impI)
  assume "image_size mod 112 = 0"
  then show "dst_points image_size =
      map (\<lambda>(x, y). (x * (real_of_int image_size / 112),
                      y * (real_of_int image_size / 112))) arcface_ref_kps"
    by (simp add: dst_points_def ratio_diff_x_def)
next
  assume "image_size mod 112 \<noteq> 0 \<and> image_size mod 128 = 0"
  then show "dst_points image_size =
      map (\<lambda>(x, y). (x * (real_of_int image_size / 128) + 8 * (real_of_int image_size / 128),
                      y * (real_of_int image_size / 128))) arcface_ref_kps"
    by (simp add: dst_points_def ratio_diff_x_def)
next
  assume "image_size mod 112 = 0 \<or> image_size mod 128 = 0"
  with assms show "\<exists>aligned M. align_and_crop cv img lms image_size = Inr (aligned, M)
      \<and> has_shape aligned (nat image_size)
      \<and> (degenerate (snd (estimateAffinePartial2D cv lms (dst_points image_size)))
           \<longrightarrow> aligned = np_zeros_image (nat image_size) \<and> M = np_zeros_matrix)"
    by (rule align_and_crop_result)
qed

theorem align_and_crop_reference_points_witness:
  "length arcface_ref_kps = 5
   \<and> dst_points 112 = map (\<lambda>(x, y). (x * (112 / 112), y * (112 / 112))) arcface_ref_kps
   \<and> dst_points 128 = map (\<lambda>(x, y). (x * (128 / 128) + 8 * (128 / 128), y * (128 / 128)))
        arcface_ref_kps
   \<and> align_and_crop no_cv2 [] arcface_ref_kps 112 = Inr (np_zeros_image 112, np_zeros_matrix)
   \<and> align_and_crop no_cv2 [] arcface_ref_kps 128 = Inr (np_zeros_image 128, np_zeros_matrix)
   \<and> has_shape (np_zeros_image 112) 112 \<and> has_shape (np_zeros_image 128) 128"
proof -
  have five: "length arcface_ref_kps = 5"
    by (simp add: arcface_ref_kps_def)
  have deg: "degenerate (snd (estimateAffinePartial2D no_cv2 arcface_ref_kps pts))" for pts
    by (simp add: no_cv2_def degenerate_def)
  from align_and_crop_reference_points [OF five, of 112 no_cv2 "[]"]
    align_and_crop_reference_points [OF five, of 128 no_cv2 "[]"] five deg
  show ?thesis
    by auto
qed

section \<open>Properties of the alignment loop\<close>

lemma collect_aligned_filter:
  "collect_aligned align img dets
     = collect_aligned align img (filter (\<lambda>d. length (face_landmarks d) = 5) dets)"
  by (induction dets) (auto split: sum.splits)

lemma collect_aligned_cong5:
  "(\<forall>lms. length lms = 5 \<longrightarrow> align img lms = align' img lms)
   \<Longrightarrow> collect_aligned align img dets = collect_aligned align' img dets"
  by (induction dets) (auto split: sum.splits)

lemma align_and_crop_112_ok:
  "length lms = 5 \<Longrightarrow> \<exists>r. align_and_crop cv img lms 112 = Inr r"
  by (auto simp: align_and_crop_def warpAffine_def split: prod.splits)

lemma collect_aligned_112_ok:
  "\<exists>r. collect_aligned (\<lambda>img lms. align_and_crop cv img lms 112) img dets = Inr r"
proof (induction dets)
  case Nil
  then show ?case by simp
next
  case (Cons d dets)
  then obtain r where
    r: "collect_aligned (\<lambda>img lms. align_and_crop cv img lms 112) img dets = Inr r"
    by blast
  show ?case
  proof (cases "length (face_landmarks d) = 5")
    case True
    from align_and_crop_112_ok [OF True] obtain a where
      "align_and_crop cv img (face_landmarks d) 112 = Inr a" by blast
    with r True show ?thesis by (cases a; cases r) auto
  next
    case False
    with r show ?thesis by simp
  qed
qed

lemma post_process_continues:
  "postprocessor_pc s = O_process data
   \<Longrightarrow> \<exists>s'. postprocessor_thread cfg s = Some s' \<and> postprocessor_pc s' = O_loop"
  by (auto simp: postprocessor_thread_def split: option.splits)

lemma collect_aligned_no_faces:
  "filter (\<lambda>d. length (face_landmarks d) = 5) dets = []
   \<Longrightarrow> collect_aligned align img dets = Inr ([], [])"
  using collect_aligned_filter [of align img dets] by simp

lemma postprocess_frame_with_filter:
  "postprocess_frame_with align cfg rm frame dets
     = postprocess_frame_with align cfg rm frame
         (filter (\<lambda>d. length (face_landmarks d) = 5) dets)"
proof (cases "filter (\<lambda>d. length (face_landmarks d) = 5) dets = []")
  case True
  from collect_aligned_no_faces [OF True, of align "image_of cfg frame"] True
  show ?thesis
    by (cases rm) (simp_all add: postprocess_frame_with_def)
next
  case False
  then have "dets \<noteq> []" by auto
  with False show ?thesis
    by (cases rm)
      (simp_all add: postprocess_frame_with_def
        collect_aligned_filter [of align "image_of cfg frame" dets])
qed

lemma postprocess_frame_with_cong5:
  assumes "\<forall>lms. length lms = 5 \<longrightarrow>
      align (image_of cfg frame) lms = align' (image_of cfg frame) lms"
  shows "postprocess_frame_with align cfg rm frame dets
     = postprocess_frame_with align' cfg rm frame dets"
  using assms
    collect_aligned_cong5
      [where align = align and align' = align' and img = "image_of cfg frame" and dets = dets]
  by (cases rm) (simp_all add: postprocess_frame_with_def)

lemma postprocess_frame_raises_nothing:
  assumes "\<forall>m faces metas. recognise cfg m faces metas \<noteq> None"
    and "\<forall>results. encode cfg frame results \<noteq> None"
  shows "postprocess_frame cfg rm frame dets \<noteq> None"
proof -
  from collect_aligned_112_ok [of "opencv cfg" "image_of cfg frame" dets] obtain r where
    "collect_aligned (\<lambda>img lms. align_and_crop (opencv cfg) img lms 112)
       (image_of cfg frame) dets = Inr r"
    by blast
  with assms show ?thesis
    by (cases r)
      (auto simp: postprocess_frame_def postprocess_frame_with_def split: option.splits)
qed

lemma post_step_filter:
  assumes "postprocessor_pc s = O_process (frame, dets)"
  shows "postprocessor_thread cfg s
     = postprocessor_thread cfg
         (s\<lparr>postprocessor_pc :=
              O_process (frame, filter (\<lambda>d. length (face_landmarks d) = 5) dets)\<rparr>)"
  using assms postprocess_frame_with_filter
    [of "\<lambda>img lms. align_and_crop (opencv cfg) img lms 112" cfg "rec_model s" frame dets]
  by (simp add: postprocessor_thread_def postprocess_frame_def split: option.splits)

text \<open>
  C8.  The detections of a frame that do not have exactly five landmarks play no part
  in the recognition stage.  The alignment loop gives what it gives on the five-landmark
  detections alone; it gives the same with any aligner that agrees with the given one on
  lists of five landmarks, so the aligner is never asked about another list; with
  \<open>align_and_crop\<close> at its default size the loop raises nothing, in particular no
  assertion fails.  The same holds for the whole iteration of the stage on one frame:
  the JPEG it makes is the JPEG it makes from the five-landmark detections alone; it is
  the same with any function in the place of \<open>align_and_crop\<close> that agrees with it on
  lists of five landmarks; when the recogniser and the encoder raise nothing, the
  iteration raises nothing.  The step of the stage thread on the frame leaves the state
  it would leave if the other detections were not there, and the stage thread is back
  at the head of its loop after the frame.
\<close>

theorem postprocessor_skips_other_landmark_counts:
  "collect_aligned align img dets
     = collect_aligned align img (filter (\<lambda>d. length (face_landmarks d) = 5) dets)
   \<and> ((\<forall>lms. length lms = 5 \<longrightarrow> align img lms = align' img lms)
        \<longrightarrow> collect_aligned align img dets = collect_aligned align' img dets)
   \<and> (\<exists>r. collect_aligned (\<lambda>img lms. align_and_crop cv img lms 112) img dets = Inr r)
   \<and> (postprocessor_pc s = O_process data
        \<longrightarrow> (\<exists>s'. postprocessor_thread cfg s = Some s' \<and> postprocessor_pc s' = O_loop))
   \<and> postprocess_frame cfg rm frame dets
       = postprocess_frame cfg rm frame (filter (\<lambda>d. length (face_landmarks d) = 5) dets)
   \<and> ((\<forall>lms. length lms = 5 \<longrightarrow>
          align (image_of cfg frame) lms
            = align_and_crop (opencv cfg) (image_of cfg frame) lms 112)
        \<longrightarrow> postprocess_frame_with align cfg rm frame dets
              = postprocess_frame cfg rm frame dets)
   \<and> ((\<forall>m faces metas. recognise cfg m faces metas \<noteq> None)
        \<and> (\<forall>results. encode cfg frame results \<noteq> None)
        \<longrightarrow> postprocess_frame cfg rm frame dets \<noteq> None)
   \<and> (postprocessor_pc s = O_process (frame, dets)
        \<longrightarrow> postprocessor_thread cfg s
              = postprocessor_thread cfg
                  (s\<lparr>postprocessor_pc :=
                       O_process (frame, filter (\<lambda>d. length (face_landmarks d) = 5) dets)\<rparr>))"
proof (intro conjI impI)
  show "collect_aligned align img dets
      = collect_aligned align img (filter (\<lambda>d. length (face_landmarks d) = 5) dets)"
    by (rule collect_aligned_filter)
next
  assume "\<forall>lms. length lms = 5 \<longrightarrow> align img lms = align' img lms"
  then show "collect_aligned align img dets = collect_aligned align' img dets"
    by (rule collect_aligned_cong5)
next
  show "\<exists>r. collect_aligned (\<lambda>img lms. align_and_crop cv img lms 112) img dets = Inr r"
    by (rule collect_aligned_112_ok)
next
  assume "postprocessor_pc s = O_process data"
  then show "\<exists>s'. postprocessor_thread cfg s = Some s' \<and> postprocessor_pc s' = O_loop"
    by (rule post_process_continues)
next
  show "postprocess_frame cfg rm frame dets
      = postprocess_frame cfg rm frame (filter (\<lambda>d. length (face_landmarks d) = 5) dets)"
    unfolding postprocess_frame_def by (rule postprocess_frame_with_filter)
next
  assume "\<forall>lms. length lms = 5 \<longrightarrow>
      align (image_of cfg frame) lms
        = align_and_crop (opencv cfg) (image_of cfg frame) lms 112"
  then show "postprocess_frame_with align cfg rm frame dets
      = postprocess_frame cfg rm frame dets"
    unfolding postprocess_frame_def by (rule postprocess_frame_with_cong5)
next
  assume "(\<forall>m faces metas. recognise cfg m faces metas \<noteq> None)
      \<and> (\<forall>results. encode cfg frame results \<noteq> None)"
  then show "postprocess_frame cfg rm frame dets \<noteq> None"
    by (simp add: postprocess_frame_raises_nothing)
next
  assume "postprocessor_pc s = O_process (frame, dets)"
  then show "postprocessor_thread cfg s
      = postprocessor_thread cfg
          (s\<lparr>postprocessor_pc :=
               O_process (frame, filter (\<lambda>d. length (face_landmarks d) = 5) dets)\<rparr>)"
    by (rule post_step_filter)
qed

theorem postprocessor_skips_other_landmark_counts_witness:
  "postprocessor_pc two_faces_state = O_process (7, [face_three, face_five])
   \<and> filter (\<lambda>d. length (face_landmarks d) = 5) [face_three, face_five] = [face_five]
   \<and> collect_aligned (\<lambda>img lms. align_and_crop no_cv2 img lms 112) [] [face_three, face_five]
       = collect_aligned (\<lambda>img lms. align_and_crop no_cv2 img lms 112) [] [face_five]
   \<and> collect_aligned (\<lambda>img lms. align_and_crop no_cv2 img lms 112) [] [face_three, face_five]
       = collect_aligned strict_align [] [face_three, face_five]
   \<and> (\<exists>r. collect_aligned (\<lambda>img lms. align_and_crop no_cv2 img lms 112) []
             [face_three, face_five] = Inr r)
   \<and> (\<exists>s'. postprocessor_thread faces_cfg two_faces_state = Some s'
         \<and> postprocessor_pc s' = O_loop)
   \<and> postprocess_frame faces_cfg (Some 1) 7 [face_five] = Some [7, 1]
   \<and> postprocess_frame faces_cfg (Some 1) 7 [face_three, face_five] = Some [7, 1]
   \<and> postprocess_frame_with strict_align faces_cfg (Some 1) 7 [face_three, face_five]
       = Some [7, 1]
   \<and> postprocess_frame faces_cfg (Some 1) 7 [face_three, face_five] \<noteq> None
   \<and> postprocessor_thread faces_cfg
        (two_faces_state\<lparr>postprocessor_pc := O_process (7, [face_five])\<rparr>)
       = Some two_faces_published
   \<and> postprocessor_thread faces_cfg two_faces_state = Some two_faces_published"
proof -
  have at: "postprocessor_pc two_faces_state = O_process (7, [face_three, face_five])"
    by (simp add: two_faces_state_def)
  have five: "filter (\<lambda>d. length (face_landmarks d) = 5) [face_three, face_five] = [face_five]"
    by (simp add: face_three_def face_five_def face_landmarks_def arcface_ref_kps_def)
  have img: "image_of faces_cfg 7 = []" "opencv faces_cfg = no_cv2"
    by (simp_all add: faces_cfg_def file_cfg_def)
  have agree: "\<forall>lms. length lms = 5 \<longrightarrow>
      (\<lambda>img lms. align_and_crop no_cv2 img lms 112) [] lms = strict_align [] lms"
    by (simp add: strict_align_def)
  have agree': "\<forall>lms. length lms = 5 \<longrightarrow>
      strict_align (image_of faces_cfg 7) lms
        = align_and_crop (opencv faces_cfg) (image_of faces_cfg 7) lms 112"
    by (simp add: strict_align_def img)
  have total: "(\<forall>m faces metas. recognise faces_cfg m faces metas \<noteq> None)
      \<and> (\<forall>results. encode faces_cfg 7 results \<noteq> None)"
    by (simp add: faces_cfg_def)
  have one: "postprocess_frame faces_cfg (Some 1) 7 [face_five] = Some [7, 1]"
    by code_simp
  have step_one: "postprocessor_thread faces_cfg
      (two_faces_state\<lparr>postprocessor_pc := O_process (7, [face_five])\<rparr>)
      = Some two_faces_published"
    by code_simp
  note T = postprocessor_skips_other_landmark_counts
    [of "\<lambda>img lms. align_and_crop no_cv2 img lms 112" "[]" "[face_three, face_five]"
      strict_align no_cv2 two_faces_state "(7, [face_three, face_five])" faces_cfg
      "Some 1" 7]
  note T' = postprocessor_skips_other_landmark_counts
    [of strict_align "[]" "[face_three, face_five]"
      strict_align no_cv2 two_faces_state "(7, [face_three, face_five])" faces_cfg
      "Some 1" 7]
  from T have 1: "collect_aligned (\<lambda>img lms. align_and_crop no_cv2 img lms 112) []
        [face_three, face_five]
      = collect_aligned (\<lambda>img lms. align_and_crop no_cv2 img lms 112) [] [face_five]"
    unfolding five by (rule conjunct1)
  from T agree have 2: "collect_aligned (\<lambda>img lms. align_and_crop no_cv2 img lms 112) []
        [face_three, face_five]
      = collect_aligned strict_align [] [face_three, face_five]"
    by blast
  from T have 3: "\<exists>r. collect_aligned (\<lambda>img lms. align_and_crop no_cv2 img lms 112) []
        [face_three, face_five] = Inr r"
    by blast
  from T at have 4: "\<exists>s'. postprocessor_thread faces_cfg two_faces_state = Some s'
      \<and> postprocessor_pc s' = O_loop"
    by blast
  from T have "postprocess_frame faces_cfg (Some 1) 7 [face_three, face_five]
      = postprocess_frame faces_cfg (Some 1) 7 [face_five]"
    unfolding five by blast
  with one have 5: "postprocess_frame faces_cfg (Some 1) 7 [face_three, face_five] = Some [7, 1]"
    by simp
  from T' agree' have "postprocess_frame_with strict_align faces_cfg (Some 1) 7
        [face_three, face_five]
      = postprocess_frame faces_cfg (Some 1) 7 [face_three, face_five]"
    by blast
  with 5 have 6: "postprocess_frame_with strict_align faces_cfg (Some 1) 7
      [face_three, face_five] = Some [7, 1]"
    by simp
  from T total have 7: "postprocess_frame faces_cfg (Some 1) 7 [face_three, face_five] \<noteq> None"
    by blast
  from T at have "postprocessor_thread faces_cfg two_faces_state
      = postprocessor_thread faces_cfg
          (two_faces_state\<lparr>postprocessor_pc := O_process (7, [face_five])\<rparr>)"
    unfolding five by blast
  with step_one have 8: "postprocessor_thread faces_cfg two_faces_state
      = Some two_faces_published"
    by simp
  from at five 1 2 3 4 one 5 6 7 step_one 8 show ?thesis
    by (intro conjI)
qed

section \<open>Starting a stream on an exhausted pool\<close>

text \<open>
  C3.  On an empty pool to which nobody returns a set, the driver thread is still alive
  (waiting in \<open>acquire\<close> for its five seconds) when \<open>start_stream\<close> looks at it, unless
  the event loop is more than 4.8 seconds late: the session is registered, and no
  service-busy failure is reported.
\<close>

theorem start_stream_registers_on_empty_pool:
  assumes "pool p = []" and "next_release_ms env = None" and "loop_delay_ms env < 4800"
  shows "start_stream p env = Registered"
  using assms
  by (simp add: start_stream_def driver_end_ms_def acquire_timeout_ms_def grace_ms_def)

theorem start_stream_registers_on_empty_pool_witness:
  "pool pool_taken = []
   \<and> next_release_ms \<lparr>next_release_ms = None, open_ms = 50, opens = True, monitor_end_ms = None,
          loop_delay_ms = 0\<rparr>
       = None
   \<and> loop_delay_ms \<lparr>next_release_ms = None, open_ms = 50, opens = True, monitor_end_ms = None,
          loop_delay_ms = 0\<rparr>
       < 4800
   \<and> start_stream pool_taken
        \<lparr>next_release_ms = None, open_ms = 50, opens = True, monitor_end_ms = None,
          loop_delay_ms = 0\<rparr> = Registered"
proof -
  have a: "pool pool_taken = []"
    by (simp add: pool_taken_def)
  have b: "next_release_ms
      \<lparr>next_release_ms = None, open_ms = 50, opens = True, monitor_end_ms = None,
          loop_delay_ms = 0\<rparr> = None"
    by simp
  have c: "loop_delay_ms
      \<lparr>next_release_ms = None, open_ms = 50, opens = True, monitor_end_ms = None,
          loop_delay_ms = 0\<rparr> < 4800"
    by simp
  from start_stream_registers_on_empty_pool [OF a b c] a b c show ?thesis
    by blast
qed

section \<open>Invariants of the interleavings\<close>

lemma run_invariant:
  assumes "run cfg sched s0 = Some s" and "P s0"
    and pres: "\<And>s a s'. P s \<Longrightarrow> step cfg a s = Some s' \<Longrightarrow> P s'"
  shows "P s"
  using assms(1,2)
proof (induction sched arbitrary: s0)
  case Nil
  then show ?case by simp
next
  case (Cons a sched)
  then show ?case by (auto split: option.splits dest: pres)
qed

lemma reachable_invariant:
  assumes "reachable cfg s"
    and init: "\<And>p src. P (init_sys p src)"
    and pres: "\<And>s a s'. P s \<Longrightarrow> step cfg a s = Some s' \<Longrightarrow> P s'"
  shows "P s"
proof -
  from assms(1) obtain p src sched where "run cfg sched (init_sys p src) = Some s"
    unfolding reachable_def by blast
  then show ?thesis by (rule run_invariant) (rule init, erule (1) pres)
qed

lemma reachableI: "run cfg sched (init_sys p src) = Some s \<Longrightarrow> reachable cfg s"
  unfolding reachable_def by blast

lemma run_append:
  "run cfg (as @ bs) s = (case run cfg as s of None \<Rightarrow> None | Some t \<Rightarrow> run cfg bs t)"
  by (induction as arbitrary: s) (auto split: option.splits)

lemma stop_step_pcs:
  "stop_step l s = Some (s', l') \<Longrightarrow>
     reader_pc s' = reader_pc s \<and> preprocessor_pc s' = preprocessor_pc s
     \<and> inference_pc s' = inference_pc s \<and> postprocessor_pc s' = postprocessor_pc s
     \<and> driver_pc s' = driver_pc s \<and> manager_pc s' = manager_pc s
     \<and> events s' = events s \<and> output_queue s' = output_queue s"
  by (cases l)
    (auto simp: stop_step_def get_def release_def
      split: qname.splits option.splits if_splits list.splits)

subsection \<open>The sample sessions\<close>

lemma run_startup: "run file_cfg startup (init_sys pool_free src) = Some (running src)"
  by (simp add: startup_def init_sys_def running_def driver_thread_def acquire_def
      pool_free_def pool_taken_def file_cfg_def)

lemma run_saturation:
  "run file_cfg saturation (init_sys pool_free (map Some [0..<31])) = Some saturated_state"
  by code_simp

lemma run_three_frames:
  "run odd_fails_cfg three_frames (init_sys pool_free [Some 0, Some 1, Some 2])
     = Some three_frames_state"
  by code_simp

lemma run_unwatched_file:
  "run file_cfg unwatched_file (init_sys pool_free (map Some [0..<30]))
     = Some unwatched_file_state"
  by code_simp

lemma run_sentinel_at_pre:
  "run file_cfg (startup @ [Reader, Reader, Reader, Preprocessor, Preprocessor])
     (init_sys pool_free []) = Some sentinel_at_pre"
  by code_simp

lemma run_sentinel_at_inf:
  "run file_cfg
     (startup @ [Reader, Reader, Reader, Preprocessor, Preprocessor, Preprocessor,
        Inference, Inference])
     (init_sys pool_free []) = Some sentinel_at_inf"
  by code_simp

lemma run_sentinel_at_post:
  "run file_cfg
     (startup @ [Reader, Reader, Reader, Preprocessor, Preprocessor, Preprocessor,
        Inference, Inference, Inference, Postprocessor, Postprocessor])
     (init_sys pool_free []) = Some sentinel_at_post"
  by code_simp

lemma run_sentinel_at_feed:
  "run file_cfg (startup @ end_of_file @ [Feed]) (init_sys pool_free [])
     = Some sentinel_at_feed"
  by code_simp

lemma run_stop_and_join:
  "run file_cfg stop_and_join (init_sys pool_free [Some 7]) = Some joined_state"
  by code_simp

lemma run_stop_rest: "run file_cfg stop_rest joined_state = Some stopped_state"
  by code_simp

lemma run_own_stop_and_join:
  "run file_cfg own_stop_and_join (init_sys pool_free []) = Some own_joined_state"
  by code_simp

lemma run_own_stop_rest: "run file_cfg own_stop_rest own_joined_state = Some own_stopped_state"
  by code_simp

subsection \<open>No queue grows beyond its bound\<close>

lemma bounded_pc_update [simp]:
  "bounded (s\<lparr>driver_pc := d\<rparr>) = bounded s"
  "bounded (s\<lparr>manager_pc := m\<rparr>) = bounded s"
  "bounded (s\<lparr>model_pool := p\<rparr>) = bounded s"
  "bounded (s\<lparr>models := ms\<rparr>) = bounded s"
  "bounded (s\<lparr>det_model := dm\<rparr>) = bounded s"
  "bounded (s\<lparr>rec_model := rm\<rparr>) = bounded s"
  "bounded (s\<lparr>cap := c\<rparr>) = bounded s"
  "bounded (s\<lparr>reader_pc := r\<rparr>) = bounded s"
  "bounded (s\<lparr>preprocessor_pc := pp\<rparr>) = bounded s"
  "bounded (s\<lparr>inference_pc := ip\<rparr>) = bounded s"
  "bounded (s\<lparr>postprocessor_pc := op\<rparr>) = bounded s"
  by (simp_all add: bounded_def)

lemma stop_step_bounded:
  "bounded s \<Longrightarrow> stop_step l s = Some (s', l') \<Longrightarrow> bounded s'"
  by (cases l)
    (auto simp: stop_step_def bounded_def get_def
      split: qname.splits list.splits option.splits if_splits)

lemma reader_bounded: "bounded s \<Longrightarrow> reader_thread cfg s = Some s' \<Longrightarrow> bounded s'"
  by (cases "reader_pc s")
    (auto simp: reader_thread_def bounded_def put_def put_nowait_def
      split: option.splits prod.splits if_splits)

lemma pre_bounded: "bounded s \<Longrightarrow> preprocessor_thread s = Some s' \<Longrightarrow> bounded s'"
  by (cases "preprocessor_pc s")
    (auto simp: preprocessor_thread_def bounded_def put_def get_def
      split: option.splits list.splits if_splits)

lemma inf_bounded: "bounded s \<Longrightarrow> inference_thread cfg s = Some s' \<Longrightarrow> bounded s'"
  by (cases "inference_pc s")
    (auto simp: inference_thread_def bounded_def put_def get_def
      split: option.splits list.splits if_splits)

lemma post_bounded: "bounded s \<Longrightarrow> postprocessor_thread cfg s = Some s' \<Longrightarrow> bounded s'"
  by (cases "postprocessor_pc s")
    (auto simp: postprocessor_thread_def bounded_def put_nowait_def get_def
      split: option.splits list.splits if_splits)

lemma driver_bounded: "bounded s \<Longrightarrow> driver_thread cfg s = Some s' \<Longrightarrow> bounded s'"
  by (cases "driver_pc s")
    (auto simp: driver_thread_def acquire_def
      split: option.splits list.splits if_splits prod.splits dest: stop_step_bounded)

lemma manager_bounded: "bounded s \<Longrightarrow> stop_stream s = Some s' \<Longrightarrow> bounded s'"
  by (cases "manager_pc s")
    (auto simp: stop_stream_def
      split: option.splits list.splits if_splits prod.splits dest: stop_step_bounded)

lemma feed_bounded: "bounded s \<Longrightarrow> get_stream_feed s = Some s' \<Longrightarrow> bounded s'"
  by (cases "feed_pc s")
    (auto simp: get_stream_feed_def bounded_def get_def
      split: option.splits list.splits if_splits)

lemma step_bounded: "bounded s \<Longrightarrow> step cfg a s = Some s' \<Longrightarrow> bounded s'"
  by (cases a)
    (auto simp: acquire_timeout_def split: if_splits option.splits
      dest: reader_bounded pre_bounded inf_bounded post_bounded driver_bounded
        manager_bounded feed_bounded)

lemma reachable_bounded: "reachable cfg s \<Longrightarrow> bounded s"
  by (erule reachable_invariant) (simp add: bounded_def init_sys_def, erule (1) step_bounded)

text \<open>
  C5.  In every state a session can reach, the queue behind the reader holds at most 30
  items.  A reader that holds a frame while the queue holds 30 drops the frame with its
  next step: the queue is as before, and the reader is at the head of its loop again.
  At the head of the loop, at the read and at the enqueue of a frame the reader always
  has a next step: it never waits.
\<close>

theorem reader_drops_frame_on_full_queue:
  assumes "reachable cfg s"
  shows "length (preprocess_queue s) \<le> 30
         \<and> (reader_pc s = R_put frame \<and> length (preprocess_queue s) = 30
              \<longrightarrow> reader_thread cfg s = Some (s\<lparr>reader_pc := R_loop\<rparr>))
         \<and> (reader_pc s = R_loop \<or> reader_pc s = R_read \<or> reader_pc s = R_put frame
              \<longrightarrow> reader_thread cfg s \<noteq> None)"
proof (intro conjI impI)
  from reachable_bounded [OF assms] show "length (preprocess_queue s) \<le> 30"
    by (simp add: bounded_def maxsize_def)
next
  assume "reader_pc s = R_put frame \<and> length (preprocess_queue s) = 30"
  then show "reader_thread cfg s = Some (s\<lparr>reader_pc := R_loop\<rparr>)"
    by (simp add: reader_thread_def put_nowait_def maxsize_def)
next
  assume "reader_pc s = R_loop \<or> reader_pc s = R_read \<or> reader_pc s = R_put frame"
  then show "reader_thread cfg s \<noteq> None"
    by (auto simp: reader_thread_def split: option.splits prod.splits)
qed

theorem reader_drops_frame_on_full_queue_witness:
  "reachable file_cfg saturated_state
   \<and> reader_pc saturated_state = R_put 30
   \<and> length (preprocess_queue saturated_state) = 30
   \<and> reader_thread file_cfg saturated_state = Some (saturated_state\<lparr>reader_pc := R_loop\<rparr>)
   \<and> reader_thread file_cfg saturated_state \<noteq> None"
proof -
  have r: "reachable file_cfg saturated_state"
    by (rule reachableI) (rule run_saturation)
  have at: "reader_pc saturated_state = R_put 30"
    by (simp add: saturated_state_def)
  have full: "length (preprocess_queue saturated_state) = 30"
    by (simp add: saturated_state_def)
  from reader_drops_frame_on_full_queue [OF r, of 30] r at full show ?thesis
    by blast
qed

subsection \<open>Frames keep their order\<close>

lemma frames_simps [simp]:
  "frames_of [] = []" "frames_of (x # q) = frame_of x @ frames_of q"
  "frames_of (q @ q') = frames_of q @ frames_of q'"
  "frames_of_data [] = []" "frames_of_data (y # r) = frame_of_data y @ frames_of_data r"
  "frames_of_data (r @ r') = frames_of_data r @ frames_of_data r'"
  by (simp_all add: frames_of_def frames_of_data_def)

lemma events_simps [simp]:
  "frames_read [] = []" "frames_read (es @ es') = frames_read es @ frames_read es'"
  "frames_read [FrameRead f] = [f]" "frames_read [SentinelPut qn] = []"
  "frames_read [SentinelOut] = []" "frames_read [Published f] = []" "frames_read [Yielded b] = []"
  "frames_published [] = []"
  "frames_published (es @ es') = frames_published es @ frames_published es'"
  "frames_published [FrameRead f] = []" "frames_published [SentinelPut qn] = []"
  "frames_published [SentinelOut] = []" "frames_published [Published f] = [f]"
  "frames_published [Yielded b] = []"
  by (simp_all add: frames_read_def frames_published_def)

lemma ordered_moves:
  assumes "ordered s" and "moves s s'"
  shows "ordered s'"
proof -
  from assms(2) consider
      (fewer) "frames_read (events s') = frames_read (events s)"
        "frames_published (events s') = frames_published (events s)"
        "subseq (in_flight s') (in_flight s)"
    | (read) f where "frames_read (events s') = frames_read (events s) @ [f]"
        "frames_published (events s') = frames_published (events s)"
        "in_flight s' = in_flight s @ [f]"
    | (publish) f where "frames_read (events s') = frames_read (events s)"
        "frames_published (events s') = frames_published (events s) @ [f]"
        "in_flight s = f # in_flight s'"
    unfolding moves_def by blast
  then show ?thesis
  proof cases
    case fewer
    from fewer(3) have "subseq (frames_published (events s) @ in_flight s')
        (frames_published (events s) @ in_flight s)"
      by (simp add: subseq_append')
    with assms(1) fewer(1,2) show ?thesis
      unfolding ordered_def by (metis subseq_order.order_trans)
  next
    case read
    with assms(1) show ?thesis
      unfolding ordered_def by (metis append.assoc subseq_append)
  next
    case publish
    with assms(1) show ?thesis
      unfolding ordered_def by simp
  qed
qed

lemma subseq_self_Cons [simp]: "subseq xs (x # xs)"
  by (simp add: list_emb_Cons)

lemma subseq_without_held:
  "subseq (q1 @ q2 @ q3) (h1 @ q1 @ h2 @ q2 @ h3 @ q3 @ h4)"
proof -
  have "subseq q3 (h3 @ q3 @ h4)"
    by (simp add: subseq_drop_many subseq_rev_drop_many)
  then have "subseq (q2 @ q3) (q2 @ h3 @ q3 @ h4)"
    by (simp add: subseq_append')
  then have "subseq (q2 @ q3) (h2 @ q2 @ h3 @ q3 @ h4)"
    by (rule subseq_drop_many)
  then have "subseq (q1 @ q2 @ q3) (q1 @ h2 @ q2 @ h3 @ q3 @ h4)"
    by (simp add: subseq_append')
  then show ?thesis
    by (rule subseq_drop_many)
qed

lemma subseq_distinct: "subseq xs ys \<Longrightarrow> distinct ys \<Longrightarrow> distinct xs"
  by (induction rule: list_emb.induct) (auto dest: list_emb_set)

lemma reader_moves: "reader_thread cfg s = Some s' \<Longrightarrow> moves s s'"
  by (cases "reader_pc s")
    (auto simp: reader_thread_def put_def put_nowait_def cap_read_def moves_def in_flight_def
      subseq_append' split: option.splits prod.splits if_splits list.splits)

lemma pre_moves: "preprocessor_thread s = Some s' \<Longrightarrow> moves s s'"
  by (cases "preprocessor_pc s")
    (auto simp: preprocessor_thread_def put_def get_def moves_def in_flight_def
      subseq_append' split: option.splits prod.splits if_splits list.splits)

lemma inf_moves: "inference_thread cfg s = Some s' \<Longrightarrow> moves s s'"
  by (cases "inference_pc s")
    (auto simp: inference_thread_def put_def get_def moves_def in_flight_def
      subseq_append' split: option.splits prod.splits if_splits list.splits)

lemma post_moves: "postprocessor_thread cfg s = Some s' \<Longrightarrow> moves s s'"
  by (cases "postprocessor_pc s")
    (auto simp: postprocessor_thread_def put_nowait_def get_def moves_def in_flight_def
      subseq_append' split: option.splits prod.splits if_splits list.splits)

lemma moves_pc_update [simp]:
  "moves s (s'\<lparr>driver_pc := d\<rparr>) = moves s s'"
  "moves s (s'\<lparr>manager_pc := m\<rparr>) = moves s s'"
  by (simp_all add: moves_def in_flight_def)

lemma stop_step_moves: "stop_step l s = Some (s', l') \<Longrightarrow> moves s s'"
  by (cases l)
    (auto simp: stop_step_def get_def moves_def in_flight_def release_def subseq_append'
      split: qname.splits option.splits if_splits list.splits)

lemma driver_moves: "driver_thread cfg s = Some s' \<Longrightarrow> moves s s'"
  by (cases "driver_pc s")
    (auto simp: driver_thread_def acquire_def
      split: option.splits if_splits list.splits prod.splits
      dest: stop_step_moves,
     auto simp: moves_def in_flight_def subseq_without_held)

lemma manager_moves: "stop_stream s = Some s' \<Longrightarrow> moves s s'"
  by (cases "manager_pc s")
    (auto simp: stop_stream_def
      split: option.splits if_splits list.splits prod.splits
      dest: stop_step_moves,
     auto simp: moves_def in_flight_def)

lemma feed_moves: "get_stream_feed s = Some s' \<Longrightarrow> moves s s'"
  by (cases "feed_pc s")
    (auto simp: get_stream_feed_def get_def moves_def in_flight_def
      split: option.splits if_splits list.splits)

lemma step_moves: "step cfg a s = Some s' \<Longrightarrow> moves s s'"
  by (cases a)
    (auto simp: acquire_timeout_def split: if_splits option.splits
      dest: reader_moves pre_moves inf_moves post_moves driver_moves manager_moves feed_moves,
     auto simp: moves_def in_flight_def)

lemma reachable_ordered: "reachable cfg s \<Longrightarrow> ordered s"
  by (erule reachable_invariant)
    (simp add: ordered_def in_flight_def init_sys_def, blast intro: ordered_moves step_moves)

text \<open>
  C6.  In every state a session can reach, the frames whose JPEG was put into the output
  queue, in the order they were put, are a subsequence of the frames the reader got from
  the source, in the order it got them: no frame overtakes another, and no frame is
  published more often than it was read.
\<close>

theorem published_frames_subseq_of_read:
  assumes "reachable cfg s"
  shows "subseq (frames_published (events s)) (frames_read (events s))
         \<and> (distinct (frames_read (events s)) \<longrightarrow> distinct (frames_published (events s)))"
proof -
  have "subseq (frames_published (events s)) (frames_published (events s) @ in_flight s)"
    by (simp add: prefix_imp_subseq)
  with reachable_ordered [OF assms]
  have "subseq (frames_published (events s)) (frames_read (events s))"
    unfolding ordered_def by (metis subseq_order.order_trans)
  then show ?thesis
    by (auto dest: subseq_distinct)
qed

theorem published_frames_subseq_of_read_witness:
  "reachable odd_fails_cfg three_frames_state
   \<and> frames_read (events three_frames_state) = [0, 1, 2]
   \<and> frames_published (events three_frames_state) = [0, 2]
   \<and> distinct (frames_read (events three_frames_state))
   \<and> subseq (frames_published (events three_frames_state))
        (frames_read (events three_frames_state))
   \<and> distinct (frames_published (events three_frames_state))"
proof -
  have r: "reachable odd_fails_cfg three_frames_state"
    by (rule reachableI) (rule run_three_frames)
  have rd: "frames_read (events three_frames_state) = [0, 1, 2]"
    by (simp add: three_frames_state_def frames_read_def)
  have pb: "frames_published (events three_frames_state) = [0, 2]"
    by (simp add: three_frames_state_def frames_published_def)
  have d: "distinct (frames_read (events three_frames_state))"
    by (simp add: rd)
  from published_frames_subseq_of_read [OF r] r rd pb d show ?thesis
    by blast
qed

subsection \<open>Each queue gets the sentinel at most once\<close>

lemma sentinels_simps [simp]:
  "sentinels_put qn [] = 0"
  "sentinels_put qn (es @ [e]) = sentinels_put qn es + (if e = SentinelPut qn then 1 else 0)"
  "sentinels_out [] = 0"
  "sentinels_out (es @ [e]) = sentinels_out es + (if e = SentinelOut then 1 else 0)"
  by (simp_all add: sentinels_put_def sentinels_out_def)

lemma once_simps [simp]:
  "once 0 b" "once n False = (n = 0)" "once (Suc n) b = (n = 0 \<and> b)"
  by (auto simp: once_def)

lemma once_le: "once n b \<Longrightarrow> n \<le> 1"
  by (auto simp: once_def)

lemma reader_sentinel: "sentinel_inv s \<Longrightarrow> reader_thread cfg s = Some s' \<Longrightarrow> sentinel_inv s'"
  by (cases "reader_pc s")
    (auto simp: reader_thread_def put_def put_nowait_def cap_read_def sentinel_inv_def
      stages_idle_def
      split: option.splits prod.splits if_splits list.splits)

lemma pre_sentinel: "sentinel_inv s \<Longrightarrow> preprocessor_thread s = Some s' \<Longrightarrow> sentinel_inv s'"
  by (cases "preprocessor_pc s")
    (auto simp: preprocessor_thread_def put_def get_def sentinel_inv_def stages_idle_def
      split: option.splits prod.splits if_splits list.splits)

lemma inf_sentinel: "sentinel_inv s \<Longrightarrow> inference_thread cfg s = Some s' \<Longrightarrow> sentinel_inv s'"
  by (cases "inference_pc s")
    (auto simp: inference_thread_def put_def get_def sentinel_inv_def stages_idle_def
      split: option.splits prod.splits if_splits list.splits)

lemma post_sentinel: "sentinel_inv s \<Longrightarrow> postprocessor_thread cfg s = Some s' \<Longrightarrow> sentinel_inv s'"
  by (cases "postprocessor_pc s")
    (auto simp: postprocessor_thread_def put_nowait_def get_def sentinel_inv_def stages_idle_def
      split: option.splits prod.splits if_splits list.splits)

lemma driver_sentinel: "sentinel_inv s \<Longrightarrow> driver_thread cfg s = Some s' \<Longrightarrow> sentinel_inv s'"
  by (cases "driver_pc s")
    (auto simp: driver_thread_def acquire_def sentinel_inv_def stages_idle_def
      split: option.splits if_splits list.splits prod.splits
      dest!: stop_step_pcs)

lemma manager_sentinel: "sentinel_inv s \<Longrightarrow> stop_stream s = Some s' \<Longrightarrow> sentinel_inv s'"
  by (cases "manager_pc s")
    (auto simp: stop_stream_def sentinel_inv_def stages_idle_def
      split: option.splits if_splits list.splits prod.splits
      dest!: stop_step_pcs)

lemma feed_sentinel: "sentinel_inv s \<Longrightarrow> get_stream_feed s = Some s' \<Longrightarrow> sentinel_inv s'"
  by (cases "feed_pc s")
    (auto simp: get_stream_feed_def get_def sentinel_inv_def stages_idle_def
      split: option.splits if_splits list.splits)

lemma step_sentinel: "sentinel_inv s \<Longrightarrow> step cfg a s = Some s' \<Longrightarrow> sentinel_inv s'"
  by (cases a)
    (auto simp: acquire_timeout_def split: if_splits option.splits
      dest: reader_sentinel pre_sentinel inf_sentinel post_sentinel driver_sentinel
        manager_sentinel feed_sentinel,
     auto simp: sentinel_inv_def stages_idle_def)

lemma reachable_sentinel: "reachable cfg s \<Longrightarrow> sentinel_inv s"
  by (erule reachable_invariant)
    (simp add: sentinel_inv_def stages_idle_def init_sys_def, erule (1) step_sentinel)

lemma pre_forwards:
  "preprocessor_pc s = P_put None \<and> length (inference_queue s) < 30
     \<longrightarrow> (\<exists>s'. preprocessor_thread s = Some s'
            \<and> inference_queue s' = inference_queue s @ [None] \<and> preprocessor_pc s' = P_done)"
  by (simp add: preprocessor_thread_def put_def maxsize_def)

lemma inf_forwards:
  "inference_pc s = I_put None \<and> length (postprocess_queue s) < 30
     \<longrightarrow> (\<exists>s'. inference_thread cfg s = Some s'
            \<and> postprocess_queue s' = postprocess_queue s @ [None] \<and> inference_pc s' = I_done)"
  by (simp add: inference_thread_def put_def maxsize_def)

lemma last_stage_leaves:
  "postprocessor_pc s = O_exit
     \<longrightarrow> (\<exists>s'. postprocessor_thread cfg s = Some s' \<and> postprocessor_pc s' = O_done
            \<and> output_queue s' =
                (if length (output_queue s) < 30 then output_queue s @ [None]
                 else output_queue s))"
  by (simp add: postprocessor_thread_def put_nowait_def maxsize_def)

lemma feed_ends_on_sentinel:
  "feed_pc s = F_get \<and> output_queue s = None # q
     \<longrightarrow> get_stream_feed s = Some (s\<lparr>output_queue := q, feed_pc := F_done\<rparr>)"
  by (simp add: get_stream_feed_def get_def)

text \<open>
  C4, counterexample.  A file of thirty frames is read to its end while nobody consumes
  the output queue.  The sentinel passes the three queues between the stages, but the
  output queue is full when the last stage leaves: its \<open>put_nowait\<close> is dropped.  All
  four stage threads have ended, no stop was asked for, and the sentinel was put into
  the output queue zero times, not once.
\<close>

theorem sentinel_lost_on_full_output_counterexample:
  "run file_cfg unwatched_file (init_sys pool_free (map Some [0..<30]))
     = Some unwatched_file_state
   \<and> is_file file_cfg
   \<and> stages_done unwatched_file_state
   \<and> stop_event unwatched_file_state = False
   \<and> sentinels_put PostQ (events unwatched_file_state) = 1
   \<and> sentinels_out (events unwatched_file_state) = 0
   \<and> length (output_queue unwatched_file_state) = 30
   \<and> None \<notin> set (output_queue unwatched_file_state)"
proof -
  have "is_file file_cfg \<and> stages_done unwatched_file_state
      \<and> stop_event unwatched_file_state = False
      \<and> sentinels_put PostQ (events unwatched_file_state) = 1
      \<and> sentinels_out (events unwatched_file_state) = 0
      \<and> length (output_queue unwatched_file_state) = 30
      \<and> None \<notin> set (output_queue unwatched_file_state)"
    by code_simp
  with run_unwatched_file show ?thesis
    by blast
qed

text \<open>
  C4, amended.  In every state a session can reach, each queue has been given the
  sentinel at most once: the reader has put it into the first queue exactly once when it
  has ended and not before; the second and the third queue and the output queue have
  got it at most once.  A middle stage that has taken the sentinel from its queue puts
  it into the next queue with its next step and ends.  The last stage, when it leaves,
  makes one attempt to put the sentinel into the output queue: the sentinel is appended
  when the queue holds fewer than 30 items and dropped otherwise.  A feed that takes the
  sentinel from the output queue ends.
\<close>

theorem sentinel_at_most_once:
  assumes "reachable cfg s"
  shows "sentinels_put PreQ (events s) = (if reader_pc s = R_done then 1 else 0)
         \<and> sentinels_put InfQ (events s) \<le> 1
         \<and> sentinels_put PostQ (events s) \<le> 1
         \<and> sentinels_out (events s) \<le> 1
         \<and> (preprocessor_pc s = P_put None \<and> length (inference_queue s) < 30
              \<longrightarrow> (\<exists>s'. preprocessor_thread s = Some s'
                     \<and> inference_queue s' = inference_queue s @ [None]
                     \<and> preprocessor_pc s' = P_done))
         \<and> (inference_pc s = I_put None \<and> length (postprocess_queue s) < 30
              \<longrightarrow> (\<exists>s'. inference_thread cfg s = Some s'
                     \<and> postprocess_queue s' = postprocess_queue s @ [None]
                     \<and> inference_pc s' = I_done))
         \<and> (postprocessor_pc s = O_exit
              \<longrightarrow> (\<exists>s'. postprocessor_thread cfg s = Some s' \<and> postprocessor_pc s' = O_done
                     \<and> output_queue s' =
                         (if length (output_queue s) < 30 then output_queue s @ [None]
                          else output_queue s)))
         \<and> (feed_pc s = F_get \<and> output_queue s = None # q
              \<longrightarrow> get_stream_feed s = Some (s\<lparr>output_queue := q, feed_pc := F_done\<rparr>))"
proof -
  from reachable_sentinel [OF assms] have inv: "sentinel_inv s" .
  then have "sentinels_put PreQ (events s) = (if reader_pc s = R_done then 1 else 0)"
    by (auto simp: sentinel_inv_def)
  moreover from inv have "sentinels_put InfQ (events s) \<le> 1"
    "sentinels_put PostQ (events s) \<le> 1" "sentinels_out (events s) \<le> 1"
    by (auto simp: sentinel_inv_def dest: once_le)
  ultimately show ?thesis
    using pre_forwards [of s] inf_forwards [of s cfg] last_stage_leaves [of s cfg]
      feed_ends_on_sentinel [of s q]
    by (intro conjI)
qed

theorem sentinel_at_most_once_witness:
  "reachable file_cfg sentinel_at_pre \<and> reachable file_cfg sentinel_at_inf
   \<and> reachable file_cfg sentinel_at_post \<and> reachable file_cfg sentinel_at_feed
   \<and> sentinels_put PreQ (events sentinel_at_pre) = 1
   \<and> (\<exists>s'. preprocessor_thread sentinel_at_pre = Some s'
         \<and> inference_queue s' = [None] \<and> preprocessor_pc s' = P_done)
   \<and> (\<exists>s'. inference_thread file_cfg sentinel_at_inf = Some s'
         \<and> postprocess_queue s' = [None] \<and> inference_pc s' = I_done)
   \<and> (\<exists>s'. postprocessor_thread file_cfg sentinel_at_post = Some s'
         \<and> postprocessor_pc s' = O_done \<and> output_queue s' = [None])
   \<and> get_stream_feed sentinel_at_feed
       = Some (sentinel_at_feed\<lparr>output_queue := [], feed_pc := F_done\<rparr>)
   \<and> sentinels_out (events sentinel_at_feed) \<le> 1"
proof -
  have r1: "reachable file_cfg sentinel_at_pre"
    by (rule reachableI) (rule run_sentinel_at_pre)
  have r2: "reachable file_cfg sentinel_at_inf"
    by (rule reachableI) (rule run_sentinel_at_inf)
  have r3: "reachable file_cfg sentinel_at_post"
    by (rule reachableI) (rule run_sentinel_at_post)
  have r4: "reachable file_cfg sentinel_at_feed"
    by (rule reachableI) (rule run_sentinel_at_feed)
  have f1: "reader_pc sentinel_at_pre = R_done" "preprocessor_pc sentinel_at_pre = P_put None"
    "inference_queue sentinel_at_pre = []"
    by (simp_all add: sentinel_at_pre_def running_def)
  have f2: "inference_pc sentinel_at_inf = I_put None" "postprocess_queue sentinel_at_inf = []"
    by (simp_all add: sentinel_at_inf_def running_def)
  have f3: "postprocessor_pc sentinel_at_post = O_exit" "output_queue sentinel_at_post = []"
    by (simp_all add: sentinel_at_post_def running_def)
  have f4: "feed_pc sentinel_at_feed = F_get" "output_queue sentinel_at_feed = [None]"
    by (simp_all add: sentinel_at_feed_def running_def)
  from sentinel_at_most_once [OF r1] f1
  have 1: "sentinels_put PreQ (events sentinel_at_pre) = 1"
    "\<exists>s'. preprocessor_thread sentinel_at_pre = Some s'
       \<and> inference_queue s' = [None] \<and> preprocessor_pc s' = P_done"
    by simp_all
  from sentinel_at_most_once [OF r2] f2
  have 2: "\<exists>s'. inference_thread file_cfg sentinel_at_inf = Some s'
       \<and> postprocess_queue s' = [None] \<and> inference_pc s' = I_done"
    by simp
  from sentinel_at_most_once [OF r3] f3
  have 3: "\<exists>s'. postprocessor_thread file_cfg sentinel_at_post = Some s'
       \<and> postprocessor_pc s' = O_done \<and> output_queue s' = [None]"
    by simp
  from sentinel_at_most_once [OF r4, of "[]"] f4
  have 4: "get_stream_feed sentinel_at_feed
       = Some (sentinel_at_feed\<lparr>output_queue := [], feed_pc := F_done\<rparr>)"
    "sentinels_out (events sentinel_at_feed) \<le> 1"
    by simp_all
  from r1 r2 r3 r4 1 2 3 4 show ?thesis
    by (intro conjI)
qed

subsection \<open>What \<open>stop\<close> drains\<close>

lemma stop_step_drains:
  assumes "stop_step l s = Some (s', l')" and "l \<noteq> S_check" and "drained (drained_by l) s"
  shows "drained (case l' of None \<Rightarrow> 3 | Some k \<Rightarrow> drained_by k) s' \<and> l' \<noteq> Some S_check"
  using assms
  by (cases l)
    (auto simp: stop_step_def get_def release_def drained_def
      split: qname.splits option.splits if_splits list.splits)

lemma stop_step_keeps_drained:
  assumes "stop_step l s = Some (s', l')" and "drained n s"
  shows "drained n s'"
  using assms
  by (cases l)
    (auto simp: stop_step_def get_def release_def drained_def
      split: qname.splits option.splits if_splits list.splits)

lemma drained_pc_update [simp]:
  "drained n (s\<lparr>driver_pc := d\<rparr>) = drained n s"
  "drained n (s\<lparr>manager_pc := m\<rparr>) = drained n s"
  "drained n (s\<lparr>feed_pc := f\<rparr>) = drained n s"
  "drained n (s\<lparr>output_queue := q\<rparr>) = drained n s"
  "drained n (s\<lparr>events := es\<rparr>) = drained n s"
  "drained n (s\<lparr>model_pool := p\<rparr>) = drained n s"
  "drained n (s\<lparr>models := ms\<rparr>) = drained n s"
  by (simp_all add: drained_def)

lemma stages_done_pc_update [simp]:
  "stages_done (s\<lparr>driver_pc := d\<rparr>) = stages_done s"
  "stages_done (s\<lparr>manager_pc := m\<rparr>) = stages_done s"
  "stages_done (s\<lparr>feed_pc := f\<rparr>) = stages_done s"
  "stages_done (s\<lparr>output_queue := q\<rparr>) = stages_done s"
  "stages_done (s\<lparr>events := es\<rparr>) = stages_done s"
  "stages_done (s\<lparr>model_pool := p\<rparr>) = stages_done s"
  "stages_done (s\<lparr>models := ms\<rparr>) = stages_done s"
  by (simp_all add: stages_done_def)

lemma stages_done_stuck:
  assumes "stages_done s"
  shows "reader_thread cfg s = None" "preprocessor_thread s = None"
    "inference_thread cfg s = None" "postprocessor_thread cfg s = None"
  using assms
  by (simp_all add: stages_done_def reader_thread_def preprocessor_thread_def
      inference_thread_def postprocessor_thread_def)

lemma stop_step_stages_done:
  "stop_step l s = Some (s', l') \<Longrightarrow> stages_done s' = stages_done s"
  by (auto simp: stages_done_def dest!: stop_step_pcs)

lemma manager_inv_manager:
  assumes "manager_inv s" and "stop_stream s = Some s'"
  shows "manager_inv s'"
proof (cases "manager_pc s")
  case M_idle
  with assms show ?thesis by (simp add: manager_inv_def)
next
  case (M_stop l)
  with assms(1) have l: "l \<noteq> S_check" "drained (drained_by l) s" "stages_done s"
    "started (driver_pc s)"
    by (auto simp: manager_inv_def split: if_splits)
  from assms(2) M_stop obtain t l' where t: "stop_step l s = Some (t, l')"
    by (auto simp: stop_stream_def split: option.splits)
  from stop_step_drains [OF t l(1,2)] stop_step_stages_done [OF t] stop_step_pcs [OF t]
    l(3,4) t assms(2) M_stop
  show ?thesis
    by (cases l') (auto simp: manager_inv_def stop_stream_def)
next
  case M_join
  with assms show ?thesis by (auto simp: manager_inv_def stop_stream_def)
next
  case M_done
  with assms show ?thesis by (simp add: stop_stream_def)
qed

lemma manager_inv_driver:
  assumes "manager_inv s" and "driver_thread cfg s = Some s'"
  shows "manager_inv s'"
proof (cases "driver_pc s")
  case (D_stop l)
  from assms(2) D_stop obtain t l' where t: "stop_step l s = Some (t, l')"
    by (auto simp: driver_thread_def split: option.splits)
  from assms(1) obtain n where n: "manager_drained (manager_pc s) = Some n" "drained n s"
    "stages_done s"
    by (auto simp: manager_inv_def)
  from stop_step_keeps_drained [OF t n(2)] stop_step_stages_done [OF t] stop_step_pcs [OF t]
    n t assms(2) D_stop
  show ?thesis
    by (cases l') (auto simp: manager_inv_def driver_thread_def)
next
  case D_monitor
  with assms show ?thesis
    by (auto simp: manager_inv_def driver_thread_def split: if_splits)
qed (use assms in \<open>auto simp: manager_inv_def driver_thread_def\<close>)

lemma manager_inv_step:
  assumes "manager_inv s" and "step cfg a s = Some s'"
  shows "manager_inv s'"
proof (cases a)
  case Driver
  with assms show ?thesis by (auto dest: manager_inv_driver)
next
  case Manager
  with assms show ?thesis by (auto dest: manager_inv_manager)
next
  case Feed
  with assms show ?thesis
    by (cases "feed_pc s")
      (auto simp: manager_inv_def get_stream_feed_def get_def
        split: option.splits list.splits if_splits)
next
  case AcquireTimeout
  with assms show ?thesis
    by (auto simp: manager_inv_def acquire_timeout_def split: if_splits)
qed (use assms in \<open>auto simp: manager_inv_def stages_done_stuck split: option.splits\<close>)

lemma driver_inv_driver:
  assumes "driver_inv s" and "driver_thread cfg s = Some s'"
  shows "driver_inv s'"
proof (cases "driver_pc s")
  case (D_stop l)
  with assms(1) have l: "l \<noteq> S_check" "drained (drained_by l) s" "stages_done s"
    by (auto simp: driver_inv_def split: if_splits)
  from assms(2) D_stop obtain t l' where t: "stop_step l s = Some (t, l')"
    by (auto simp: driver_thread_def split: option.splits)
  from stop_step_drains [OF t l(1,2)] stop_step_stages_done [OF t] l(3) t assms(2) D_stop
  show ?thesis
    by (cases l') (auto simp: driver_inv_def driver_thread_def)
qed (use assms in \<open>auto simp: driver_inv_def driver_thread_def\<close>)

lemma driver_inv_manager:
  assumes "driver_inv s" and "stop_stream s = Some s'"
  shows "driver_inv s'"
proof (cases "manager_pc s")
  case (M_stop l)
  from assms(2) M_stop obtain t l' where t: "stop_step l s = Some (t, l')"
    by (auto simp: stop_stream_def split: option.splits)
  from assms(1) obtain n where n: "driver_drained (driver_pc s) = Some n" "drained n s"
    "stages_done s"
    by (auto simp: driver_inv_def)
  from stop_step_keeps_drained [OF t n(2)] stop_step_stages_done [OF t] stop_step_pcs [OF t]
    n t assms(2) M_stop
  show ?thesis
    by (cases l') (auto simp: driver_inv_def stop_stream_def)
qed (use assms in \<open>auto simp: driver_inv_def stop_stream_def split: if_splits\<close>)

lemma driver_inv_step:
  assumes "driver_inv s" and "step cfg a s = Some s'"
  shows "driver_inv s'"
proof (cases a)
  case Driver
  with assms show ?thesis by (auto dest: driver_inv_driver)
next
  case Manager
  with assms show ?thesis by (auto dest: driver_inv_manager)
next
  case Feed
  with assms show ?thesis
    by (cases "feed_pc s")
      (auto simp: driver_inv_def get_stream_feed_def get_def
        split: option.splits list.splits if_splits)
next
  case AcquireTimeout
  with assms show ?thesis
    by (auto simp: driver_inv_def acquire_timeout_def split: if_splits)
qed (use assms in \<open>auto simp: driver_inv_def stages_done_stuck split: option.splits\<close>)

lemma drained_3:
  "drained 3 s \<Longrightarrow>
     preprocess_queue s = [] \<and> inference_queue s = [] \<and> postprocess_queue s = []"
  by (simp add: drained_def)

text \<open>
  C9, counterexample.  One frame is published, then the manager stops the session: the
  stage threads see the flag and end, all joins succeed, \<open>stop\<close> runs to its end, the
  driver leaves.  The three queues between the stages are empty, but the output queue
  still holds the JPEG of the frame and the sentinel of the last stage.
\<close>

theorem stop_leaves_output_queue_counterexample:
  "run file_cfg (stop_and_join @ stop_rest) (init_sys pool_free [Some 7]) = Some stopped_state
   \<and> manager_pc stopped_state = M_done \<and> driver_pc stopped_state = D_done
   \<and> stages_done stopped_state
   \<and> preprocess_queue stopped_state = [] \<and> inference_queue stopped_state = []
   \<and> postprocess_queue stopped_state = []
   \<and> output_queue stopped_state = [Some [7], None]"
proof -
  have "run file_cfg (stop_and_join @ stop_rest) (init_sys pool_free [Some 7])
      = Some stopped_state"
    by (simp add: run_append run_stop_and_join run_stop_rest)
  moreover have "manager_pc stopped_state = M_done \<and> driver_pc stopped_state = D_done
      \<and> stages_done stopped_state
      \<and> preprocess_queue stopped_state = [] \<and> inference_queue stopped_state = []
      \<and> postprocess_queue stopped_state = []
      \<and> output_queue stopped_state = [Some [7], None]"
    by (simp add: stopped_state_def joined_state_def running_def stages_done_def)
  ultimately show ?thesis
    by blast
qed

text \<open>
  C9, amended.  If the four stage threads have ended when a call of \<open>stop\<close> comes back
  from its joins (the manager's call, or the driver's own), then in every state in which
  that call has returned the three queues between the stages are empty, whatever the
  other threads did in between.  No step of \<open>stop\<close> changes the output queue.
\<close>

theorem stop_drains_intermediate_queues:
  assumes "stages_done s"
    and "run cfg sched s = Some s'"
    and "(manager_pc s = M_stop S_cap \<and> started (driver_pc s)
            \<and> (manager_pc s' = M_join \<or> manager_pc s' = M_done))
         \<or> (driver_pc s = D_stop S_cap \<and> driver_pc s' = D_done)"
  shows "preprocess_queue s' = [] \<and> inference_queue s' = [] \<and> postprocess_queue s' = []
         \<and> (\<forall>l t t' l'. stop_step l t = Some (t', l') \<longrightarrow> output_queue t' = output_queue t)"
proof -
  have "preprocess_queue s' = [] \<and> inference_queue s' = [] \<and> postprocess_queue s' = []"
    using assms(3)
  proof
    assume m: "manager_pc s = M_stop S_cap \<and> started (driver_pc s)
              \<and> (manager_pc s' = M_join \<or> manager_pc s' = M_done)"
    with assms(1) have "manager_inv s" by (simp add: manager_inv_def drained_def)
    with assms(2) have "manager_inv s'"
      by (rule run_invariant) (erule (1) manager_inv_step)
    with m show ?thesis by (auto simp: manager_inv_def dest: drained_3)
  next
    assume d: "driver_pc s = D_stop S_cap \<and> driver_pc s' = D_done"
    with assms(1) have "driver_inv s" by (simp add: driver_inv_def drained_def)
    with assms(2) have "driver_inv s'"
      by (rule run_invariant) (erule (1) driver_inv_step)
    with d show ?thesis by (auto simp: driver_inv_def dest: drained_3)
  qed
  then show ?thesis
    by (auto dest: stop_step_pcs)
qed

theorem stop_drains_intermediate_queues_witness:
  "stages_done joined_state
   \<and> run file_cfg stop_rest joined_state = Some stopped_state
   \<and> manager_pc joined_state = M_stop S_cap \<and> started (driver_pc joined_state)
   \<and> manager_pc stopped_state = M_done
   \<and> preprocess_queue joined_state = [None]
   \<and> preprocess_queue stopped_state = [] \<and> inference_queue stopped_state = []
   \<and> postprocess_queue stopped_state = []
   \<and> output_queue stopped_state = output_queue joined_state
   \<and> stages_done own_joined_state
   \<and> run file_cfg own_stop_rest own_joined_state = Some own_stopped_state
   \<and> driver_pc own_joined_state = D_stop S_cap \<and> driver_pc own_stopped_state = D_done
   \<and> preprocess_queue own_joined_state = [None]
   \<and> preprocess_queue own_stopped_state = [] \<and> inference_queue own_stopped_state = []
   \<and> postprocess_queue own_stopped_state = []
   \<and> output_queue own_stopped_state = output_queue own_joined_state"
proof -
  have a: "stages_done joined_state"
    by (simp add: joined_state_def running_def stages_done_def)
  have b: "manager_pc joined_state = M_stop S_cap" "started (driver_pc joined_state)"
    "manager_pc stopped_state = M_done" "preprocess_queue joined_state = [None]"
    "output_queue stopped_state = output_queue joined_state"
    by (simp_all add: stopped_state_def joined_state_def running_def)
  from stop_drains_intermediate_queues [OF a run_stop_rest] b
  have c: "preprocess_queue stopped_state = [] \<and> inference_queue stopped_state = []
      \<and> postprocess_queue stopped_state = []"
    by blast
  have a': "stages_done own_joined_state"
    by (simp add: own_joined_state_def running_def stages_done_def)
  have b': "driver_pc own_joined_state = D_stop S_cap" "driver_pc own_stopped_state = D_done"
    "preprocess_queue own_joined_state = [None]"
    "output_queue own_stopped_state = output_queue own_joined_state"
    by (simp_all add: own_stopped_state_def own_joined_state_def running_def)
  from stop_drains_intermediate_queues [OF a' run_own_stop_rest] b'
  have c': "preprocess_queue own_stopped_state = [] \<and> inference_queue own_stopped_state = []
      \<and> postprocess_queue own_stopped_state = []"
    by blast
  from a b c run_stop_rest a' b' c' run_own_stop_rest show ?thesis
    by (intro conjI) simp_all
qed

section \<open>Two defects of \<open>stop\<close>\<close>

text \<open>
  What \<open>stop\<close> does right: the joins change nothing and lead on whatever their outcome;
  a call that holds a set puts it back into a pool with room; a call that starts when
  the flag is set returns at once and changes nothing.
\<close>

lemma stop_goes_on_after_joins: "stop_step S_join s = Some (s, Some S_cap)"
  by (simp add: stop_step_def)

lemma stop_puts_set_back:
  assumes "models s = Some m" and "length (pool (model_pool s)) < pool_size (model_pool s)"
  shows "stop_step S_models s = Some (s, Some S_release)"
    and "stop_step S_release s =
      Some (s\<lparr>model_pool := (model_pool s)\<lparr>pool := pool (model_pool s) @ [Some m]\<rparr>\<rparr>,
            Some S_clear)"
  using assms by (simp_all add: stop_step_def release_def)

lemma stop_after_flag_returns: "stop_event s \<Longrightarrow> stop_step S_check s = Some (s, None)"
  by (simp add: stop_step_def)

text \<open>
  C2.  The pool is empty when the session starts, so the driver waits in \<open>acquire\<close>.
  The manager stops the session meanwhile: its \<open>stop\<close> sets the flag, finds no set to
  give back, and returns.  Then another user returns the set \<open>(0, 1)\<close>; the driver gets
  it, and the \<open>stop\<close> of its \<open>finally\<close> clause returns at the test of the flag.  In the
  end every thread of the session has ended, the session still holds the set, the pool
  is empty, and neither the driver nor the manager has a step left.
\<close>

theorem set_kept_when_stopped_while_acquiring:
  "run file_cfg stop_while_acquiring (init_sys pool_taken []) = Some leaked_state
   \<and> models leaked_state = Some (0, 1)
   \<and> pool (model_pool leaked_state) = []
   \<and> stages_done leaked_state
   \<and> driver_pc leaked_state = D_done \<and> manager_pc leaked_state = M_done
   \<and> step file_cfg Driver leaked_state = None
   \<and> step file_cfg AcquireTimeout leaked_state = None
   \<and> step file_cfg Manager leaked_state = None"
  by code_simp

text \<open>
  C10.  A pool of two sets, one of them with another user; the session plays an empty
  file.  The driver sees that the reader has ended and calls \<open>stop\<close>, and the manager
  calls \<open>stop\<close> for the same session.  Both calls pass the test of the flag before
  either sets it, and both pass the test of \<open>self.models\<close> before either clears it: the
  one set of the session is put into the pool twice.
\<close>

theorem set_released_twice_by_two_stops:
  "run file_cfg two_stops (init_sys pool_shared []) = Some released_twice_state
   \<and> pool (model_pool (init_sys pool_shared [])) = [Some (0, 1)]
   \<and> pool (model_pool released_twice_state) = [Some (0, 1), Some (0, 1)]
   \<and> driver_pc released_twice_state = D_done \<and> manager_pc released_twice_state = M_done"
  by code_simp

end
